theory Spec2Isabelle
  imports Main "HOL-Library.Word"
begin

section \<open>The StakeVault contract\<close>

text \<open>
  The escrow engine of the repository is the Solidity contract \<open>StakeVault\<close>
  (\<open>pragma solidity ^0.8.24\<close>). Its integers are \<open>uint256\<close>, its addresses are 160 bits
  wide, and every arithmetic operation is checked: an overflow, an underflow or
  a division by zero aborts the call with a panic. A failed \<open>require\<close> or a panic reverts
  the whole call, so that none of its writes and none of its events remain.
\<close>

type_synonym uint256 = "256 word"
type_synonym address = "160 word"

subsection \<open>Errors, events and calls to the token\<close>

text \<open>
  One constructor for each \<open>require\<close> message of the contract, and two for the panics of
  checked arithmetic (\<open>Panic(0x11)\<close> for overflow and underflow, \<open>Panic(0x12)\<close> for division
  by zero). The specification names them \<open>InvalidBeneficiary\<close> (\<open>BENEFICIARY_ZERO\<close>),
  \<open>ZeroAmount\<close> (\<open>AMOUNT_ZERO\<close>), \<open>ZeroDuration\<close> (\<open>DURATION_ZERO\<close>), \<open>StartInPast\<close>
  (\<open>START_PAST\<close>), \<open>NotAuthorized\<close> (\<open>NOT_VERIFIER\<close>), \<open>NotAdmin\<close> (\<open>NOT_OWNER\<close>),
  \<open>NotOwner\<close> (\<open>NOT_USER\<close>), \<open>AlreadyFinalized\<close> (\<open>FINALIZED\<close>), \<open>InvalidDay\<close>
  (\<open>BAD_DAY\<close>), \<open>AlreadyUnlocked\<close>, \<open>DayNotStarted\<close>, \<open>NotEnded\<close>, \<open>NothingToClaim\<close>,
  \<open>NotFound\<close>, and \<open>TransferFailed\<close> for the three failures of a token call.
\<close>

datatype error =
    USDC_ZERO | NOT_OWNER | NOT_VERIFIER
  | BENEFICIARY_ZERO | AMOUNT_ZERO | DURATION_ZERO | START_PAST | TRANSFER_FROM_FAIL
  | FINALIZED | NOT_FOUND | BAD_DAY | ALREADY_UNLOCKED | DAY_NOT_STARTED
  | NOT_USER | NOTHING_TO_CLAIM | TRANSFER_FAIL
  | NOT_ENDED | BENEFICIARY_XFER_FAIL
  | Panic_0x11 | Panic_0x12

datatype event =
    ChallengeCreated uint256 address address uint256 uint256 uint256
  | DayAttested uint256 uint256 uint256
  | Claimed uint256 address uint256
  | Finalized uint256 uint256

text \<open>The two functions of \<open>IERC20\<close> that the contract calls on the token.\<close>

datatype call =
    TransferFrom address address uint256
  | Transfer address uint256

subsection \<open>Storage\<close>

record Challenge =
  user :: address
  beneficiary :: address
  principal :: uint256
  released :: uint256
  penalized :: uint256
  startTime :: uint256
  durationDays :: uint256
  dailySlice :: uint256
  finalized :: bool
  dayUnlocked :: "uint256 \<Rightarrow> bool"

text \<open>
  A Solidity mapping has a value at every key, the zero value where nothing was written:
  \<open>challenges\<close> and \<open>dayUnlocked\<close> are total functions. The field \<open>this\<close> is the
  contract's own address, \<open>address(this)\<close> in the source.
\<close>

record StakeVault =
  this :: address
  USDC :: address
  verifier :: address
  owner :: address
  nextChallengeId :: uint256
  challenges :: "uint256 \<Rightarrow> Challenge"

definition zeroChallenge :: Challenge where
  "zeroChallenge =
     \<lparr>user = 0, beneficiary = 0, principal = 0, released = 0, penalized = 0, startTime = 0,
      durationDays = 0, dailySlice = 0, finalized = False, dayUnlocked = (\<lambda>_. False)\<rparr>"

subsection \<open>Checked arithmetic\<close>

definition checked_add :: "uint256 \<Rightarrow> uint256 \<Rightarrow> error + uint256" where
  "checked_add a b = (if unat a + unat b < 2 ^ 256 then Inr (a + b) else Inl Panic_0x11)"

definition checked_sub :: "uint256 \<Rightarrow> uint256 \<Rightarrow> error + uint256" where
  "checked_sub a b = (if b \<le> a then Inr (a - b) else Inl Panic_0x11)"

definition checked_mul :: "uint256 \<Rightarrow> uint256 \<Rightarrow> error + uint256" where
  "checked_mul a b = (if unat a * unat b < 2 ^ 256 then Inr (a * b) else Inl Panic_0x11)"

definition checked_div :: "uint256 \<Rightarrow> uint256 \<Rightarrow> error + uint256" where
  "checked_div a b = (if b = 0 then Inl Panic_0x12 else Inr (a div b))"

definition one_days :: uint256 where
  "one_days = 86400"

subsection \<open>Calls, external calls and their outcome\<close>

text \<open>
  A call of the contract either reverts with an error or returns a value, the storage it
  leaves and the events it emitted. Each function of the contract calls the token at most
  once, so a call is run up to that point: \<open>Halt\<close> when it ends without calling the
  token, \<open>ExternalCall\<close> with the call made, the storage as it is at that moment, and what
  the function does with the token's answer. The token is not part of the repository; its
  answer is an input of the model, and it is taken not to call back into the contract. A
  token call that itself reverts undoes the whole call as a false answer does, and is
  modelled as one.
\<close>

datatype 'a outcome = Reverted error | Returned 'a StakeVault "event list"

datatype 'a exec = Halt "'a outcome" | ExternalCall call StakeVault "bool \<Rightarrow> 'a outcome"

definition transact :: "bool \<Rightarrow> 'a exec \<Rightarrow> 'a outcome" where
  "transact ok ex = (case ex of Halt out \<Rightarrow> out | ExternalCall c s k \<Rightarrow> k ok)"

text \<open>A reverted call leaves the storage and the event log as they were.\<close>

definition commit :: "StakeVault \<times> event list \<Rightarrow> 'a outcome \<Rightarrow> StakeVault \<times> event list" where
  "commit w out = (case out of Reverted e \<Rightarrow> w | Returned r s' evs \<Rightarrow> (s', snd w @ evs))"

subsection \<open>The functions of the contract\<close>

definition constructor :: "address \<Rightarrow> address \<Rightarrow> address \<Rightarrow> address \<Rightarrow> error + StakeVault" where
  "constructor sender self usdc initialVerifier =
     (if usdc = 0 then Inl USDC_ZERO
      else Inr \<lparr>this = self, USDC = usdc, verifier = initialVerifier, owner = sender,
                nextChallengeId = 0, challenges = (\<lambda>_. zeroChallenge)\<rparr>)"

definition setVerifier :: "address \<Rightarrow> address \<Rightarrow> StakeVault \<Rightarrow> unit exec" where
  "setVerifier sender v s =
     (if sender \<noteq> owner s then Halt (Reverted NOT_OWNER)
      else Halt (Returned () (s\<lparr>verifier := v\<rparr>) []))"

definition createChallenge ::
  "address \<Rightarrow> uint256 \<Rightarrow> address \<Rightarrow> uint256 \<Rightarrow> uint256 \<Rightarrow> uint256 \<Rightarrow> StakeVault \<Rightarrow> uint256 exec" where
  "createChallenge sender now benef amount start days s =
     (if benef = 0 then Halt (Reverted BENEFICIARY_ZERO)
      else if \<not> amount > 0 then Halt (Reverted AMOUNT_ZERO)
      else if \<not> days > 0 then Halt (Reverted DURATION_ZERO)
      else if \<not> start \<ge> now then Halt (Reverted START_PAST)
      else
        (case checked_add (nextChallengeId s) 1 of
           Inl e \<Rightarrow> Halt (Reverted e)
         | Inr cid \<Rightarrow>
            (case checked_div amount days of
               Inl e \<Rightarrow> Halt (Reverted e)
             | Inr daily \<Rightarrow>
                (let c = (challenges s cid)
                       \<lparr>user := sender, beneficiary := benef, principal := amount,
                        released := 0, penalized := 0, startTime := start,
                        durationDays := days, dailySlice := daily, finalized := False\<rparr>;
                     s' = s\<lparr>nextChallengeId := cid, challenges := (challenges s)(cid := c)\<rparr>
                 in ExternalCall (TransferFrom sender (this s) amount) s'
                      (\<lambda>ok. if ok
                         then Returned cid s' [ChallengeCreated cid sender benef amount start days]
                         else Reverted TRANSFER_FROM_FAIL)))))"

definition attestCompletion ::
  "address \<Rightarrow> uint256 \<Rightarrow> uint256 \<Rightarrow> uint256 \<Rightarrow> StakeVault \<Rightarrow> unit exec" where
  "attestCompletion sender now cid dayIndex s =
     (if sender \<noteq> verifier s then Halt (Reverted NOT_VERIFIER)
      else
        (let c = challenges s cid in
         if finalized c then Halt (Reverted FINALIZED)
         else if user c = 0 then Halt (Reverted NOT_FOUND)
         else if \<not> dayIndex < durationDays c then Halt (Reverted BAD_DAY)
         else if dayUnlocked c dayIndex then Halt (Reverted ALREADY_UNLOCKED)
         else
           (case checked_mul dayIndex one_days of
              Inl e \<Rightarrow> Halt (Reverted e)
            | Inr offset \<Rightarrow>
               (case checked_add (startTime c) offset of
                  Inl e \<Rightarrow> Halt (Reverted e)
                | Inr dayStart \<Rightarrow>
                   if \<not> now \<ge> dayStart then Halt (Reverted DAY_NOT_STARTED)
                   else
                     (case checked_add (released c) (dailySlice c) of
                        Inl e \<Rightarrow> Halt (Reverted e)
                      | Inr r \<Rightarrow>
                         Halt (Returned ()
                           (s\<lparr>challenges := (challenges s)
                                (cid := c\<lparr>dayUnlocked := (dayUnlocked c)(dayIndex := True),
                                         released := r\<rparr>)\<rparr>)
                           [DayAttested cid dayIndex (dailySlice c)]))))))"

definition claimUnlocked :: "address \<Rightarrow> uint256 \<Rightarrow> StakeVault \<Rightarrow> unit exec" where
  "claimUnlocked sender cid s =
     (let c = challenges s cid in
      if user c \<noteq> sender then Halt (Reverted NOT_USER)
      else
        (let claimable = released c in
         if \<not> claimable > 0 then Halt (Reverted NOTHING_TO_CLAIM)
         else
           (let s' = s\<lparr>challenges := (challenges s)(cid := c\<lparr>released := 0\<rparr>)\<rparr>
            in ExternalCall (Transfer sender claimable) s'
                 (\<lambda>ok. if ok then Returned () s' [Claimed cid sender claimable]
                        else Reverted TRANSFER_FAIL))))"

text \<open>
  The loop of \<open>_sumUnlocked\<close>: \<open>i\<close> runs from 0 while \<open>i < d\<close>, and \<open>total += c.dailySlice\<close>
  is a checked addition (\<open>tot\<close> is the source's \<open>total\<close>). The increment \<open>i++\<close> is checked
  too, but under \<open>i < d\<close> it cannot overflow.
\<close>

function sumUnlocked_loop :: "Challenge \<Rightarrow> uint256 \<Rightarrow> uint256 \<Rightarrow> uint256 \<Rightarrow> error + uint256" where
  "sumUnlocked_loop c d i tot =
     (if i < d then
        (if dayUnlocked c i then
           (case checked_add tot (dailySlice c) of
              Inl e \<Rightarrow> Inl e
            | Inr t \<Rightarrow> sumUnlocked_loop c d (i + 1) t)
         else sumUnlocked_loop c d (i + 1) tot)
      else Inr tot)"
  by pat_completeness auto
termination
proof (relation "measure (\<lambda>(c, d, i, tot). unat d - unat i)")
  show "wf (measure (\<lambda>(c, d, i, tot). unat d - unat i))" by simp
next
  fix c :: Challenge and d i tot t :: uint256
  assume "i < d"
  then have lt: "unat i < unat d"
    by (simp add: word_less_nat_alt)
  moreover have "unat d < 2 ^ LENGTH(256)"
    by (rule unsigned_less)
  ultimately have "unat i + unat (1 :: uint256) < 2 ^ LENGTH(256)"
    by simp
  then have "unat (i + 1) = unat i + 1"
    by (simp add: unat_add_lem [THEN iffD1])
  with lt have dec: "unat d - unat (i + 1) < unat d - unat i"
    by simp
  from dec show "((c, d, i + 1, t), c, d, i, tot) \<in> measure (\<lambda>(c, d, i, tot). unat d - unat i)"
    by simp
  from dec show "((c, d, i + 1, tot), c, d, i, tot) \<in> measure (\<lambda>(c, d, i, tot). unat d - unat i)"
    by simp
qed

declare sumUnlocked_loop.simps [simp del]

definition sumUnlocked :: "Challenge \<Rightarrow> error + uint256" where
  "sumUnlocked c = sumUnlocked_loop c (durationDays c) 0 0"

definition finalize :: "uint256 \<Rightarrow> uint256 \<Rightarrow> StakeVault \<Rightarrow> unit exec" where
  "finalize now cid s =
     (let c = challenges s cid in
      if finalized c then Halt (Reverted FINALIZED)
      else if user c = 0 then Halt (Reverted NOT_FOUND)
      else
        (case checked_mul (durationDays c) one_days of
           Inl e \<Rightarrow> Halt (Reverted e)
         | Inr span \<Rightarrow>
            (case checked_add (startTime c) span of
               Inl e \<Rightarrow> Halt (Reverted e)
             | Inr endTime \<Rightarrow>
                if \<not> now \<ge> endTime then Halt (Reverted NOT_ENDED)
                else
                  (case sumUnlocked c of
                     Inl e \<Rightarrow> Halt (Reverted e)
                   | Inr unlockedTotal \<Rightarrow>
                      (case checked_sub (principal c) unlockedTotal of
                         Inl e \<Rightarrow> Halt (Reverted e)
                       | Inr remainder \<Rightarrow>
                          (case checked_add (penalized c) remainder of
                             Inl e \<Rightarrow> Halt (Reverted e)
                           | Inr p \<Rightarrow>
                              (let s' = s\<lparr>challenges := (challenges s)
                                          (cid := c\<lparr>penalized := p, finalized := True\<rparr>)\<rparr>
                               in if remainder > 0
                                  then ExternalCall (Transfer (beneficiary c) remainder) s'
                                         (\<lambda>ok. if ok then Returned () s' [Finalized cid remainder]
                                                else Reverted BENEFICIARY_XFER_FAIL)
                                  else Halt (Returned () s' [Finalized cid remainder]))))))))"

subsection \<open>Runs of the contract\<close>

text \<open>
  The chain holds the contract's storage and the log of the events emitted so far. One
  step is one call of one of the five external functions, by any sender, at any block
  time, with any answer of the token; a reverted call is a step that changes nothing.
\<close>

inductive step :: "StakeVault \<times> event list \<Rightarrow> StakeVault \<times> event list \<Rightarrow> bool" where
  step_setVerifier:
    "step w (commit w (transact ok (setVerifier sender v (fst w))))"
| step_createChallenge:
    "step w (commit w (transact ok (createChallenge sender now benef amount start days (fst w))))"
| step_attestCompletion:
    "step w (commit w (transact ok (attestCompletion sender now cid dayIndex (fst w))))"
| step_claimUnlocked:
    "step w (commit w (transact ok (claimUnlocked sender cid (fst w))))"
| step_finalize:
    "step w (commit w (transact ok (finalize now cid (fst w))))"

inductive reachable :: "StakeVault \<times> event list \<Rightarrow> bool" where
  deployed: "constructor sender self usdc v = Inr s \<Longrightarrow> reachable (s, [])"
| stepped: "reachable w \<Longrightarrow> step w w' \<Longrightarrow> reachable w'"

subsection \<open>Quantities of the ledger\<close>

text \<open>The amount paid to the owner of a challenge so far: the sum of its \<open>Claimed\<close> events.\<close>

definition claimedTotal :: "uint256 \<Rightarrow> event list \<Rightarrow> nat" where
  "claimedTotal cid log =
     sum_list (map (\<lambda>e. case e of Claimed i u a \<Rightarrow> (if i = cid then unat a else 0) | _ \<Rightarrow> 0) log)"

definition attestedCount :: "uint256 \<Rightarrow> uint256 \<Rightarrow> event list \<Rightarrow> nat" where
  "attestedCount cid dayIndex log =
     length (filter (\<lambda>e. case e of DayAttested i d a \<Rightarrow> i = cid \<and> d = dayIndex | _ \<Rightarrow> False) log)"

definition finalizedCount :: "uint256 \<Rightarrow> event list \<Rightarrow> nat" where
  "finalizedCount cid log =
     length (filter (\<lambda>e. case e of Finalized i a \<Rightarrow> i = cid | _ \<Rightarrow> False) log)"

definition unlockedDays :: "Challenge \<Rightarrow> uint256 set" where
  "unlockedDays c = {i. dayUnlocked c i}"

text \<open>The sum of \<open>dailySlice\<close> over the unlocked days, as a natural number.\<close>

definition unlockedTotal :: "Challenge \<Rightarrow> nat" where
  "unlockedTotal c = (\<Sum>i \<in> unlockedDays c. unat (dailySlice c))"

text \<open>What every run keeps true of each challenge and of the identifiers not yet given out.\<close>

definition challenge_inv :: "event list \<Rightarrow> uint256 \<Rightarrow> Challenge \<Rightarrow> bool" where
  "challenge_inv log cid c \<longleftrightarrow>
     unlockedDays c \<subseteq> {i. i < durationDays c}
     \<and> dailySlice c = principal c div durationDays c
     \<and> (user c \<noteq> 0 \<longrightarrow> principal c \<noteq> 0 \<and> durationDays c \<noteq> 0)
     \<and> claimedTotal cid log + unat (released c) = unlockedTotal c
     \<and> (if finalized c then unat (penalized c) + unlockedTotal c = unat (principal c)
        else penalized c = 0)
     \<and> finalizedCount cid log = (if finalized c then 1 else 0)
     \<and> (\<forall>i. attestedCount cid i log = (if dayUnlocked c i then 1 else 0))"

definition vault_inv :: "StakeVault \<times> event list \<Rightarrow> bool" where
  "vault_inv w \<longleftrightarrow>
     (\<forall>cid. challenge_inv (snd w) cid (challenges (fst w) cid))
     \<and> (\<forall>cid. cid = 0 \<or> nextChallengeId (fst w) < cid \<longrightarrow> challenges (fst w) cid = zeroChallenge)"

text \<open>
  What later calls keep of a challenge: its immutable fields, the flag \<open>finalized\<close> once
  set, and every day once unlocked.
\<close>

definition keeps :: "Challenge \<Rightarrow> Challenge \<Rightarrow> bool" where
  "keeps c c' \<longleftrightarrow>
     user c' = user c \<and> beneficiary c' = beneficiary c \<and> principal c' = principal c
     \<and> startTime c' = startTime c \<and> durationDays c' = durationDays c
     \<and> dailySlice c' = dailySlice c
     \<and> (finalized c \<longrightarrow> finalized c')
     \<and> (\<forall>i. dayUnlocked c i \<longrightarrow> dayUnlocked c' i)"

subsection \<open>A run with principal 100 over 7 days\<close>

text \<open>
  The administrator 1 deploys the vault at address 2 for the token 3 with the verifier 4.
  The user 5 locks 100 for 7 days from time 1000 with the beneficiary 6; days 0 and 1 are
  attested, the user claims, day 2 is attested, and the challenge is finalized when the
  seven days are over.
\<close>

definition vault0 :: StakeVault where
  "vault0 = \<lparr>this = 2, USDC = 3, verifier = 4, owner = 1, nextChallengeId = 0,
             challenges = (\<lambda>_. zeroChallenge)\<rparr>"

definition run0 :: "StakeVault \<times> event list" where
  "run0 = (vault0, [])"

definition run1 :: "StakeVault \<times> event list" where
  "run1 = commit run0 (transact True (createChallenge 5 1000 6 100 1000 7 (fst run0)))"

definition run2 :: "StakeVault \<times> event list" where
  "run2 = commit run1 (transact True (attestCompletion 4 1000 1 0 (fst run1)))"

definition run3 :: "StakeVault \<times> event list" where
  "run3 = commit run2 (transact True (attestCompletion 4 87400 1 1 (fst run2)))"

definition run4 :: "StakeVault \<times> event list" where
  "run4 = commit run3 (transact True (claimUnlocked 5 1 (fst run3)))"

definition run5 :: "StakeVault \<times> event list" where
  "run5 = commit run4 (transact True (attestCompletion 4 200000 1 2 (fst run4)))"

definition run6 :: "StakeVault \<times> event list" where
  "run6 = commit run5 (transact True (finalize 605800 1 (fst run5)))"

subsection \<open>Two more runs: a start time at the top of the range, and a zero slice\<close>

definition MAX_UINT256 :: uint256 where
  "MAX_UINT256 = 115792089237316195423570985008687907853269984665640564039457584007913129639935"

text \<open>The user 5 locks 100 for 7 days from the largest time a \<open>uint256\<close> holds.\<close>

definition run_max :: "StakeVault \<times> event list" where
  "run_max = commit run0 (transact True (createChallenge 5 1000 6 100 MAX_UINT256 7 (fst run0)))"

text \<open>
  The user 5 locks 3 for 7 days from time 1000, so that the daily slice is 0; day 0 is
  attested.
\<close>

definition run_z1 :: "StakeVault \<times> event list" where
  "run_z1 = commit run0 (transact True (createChallenge 5 1000 6 3 1000 7 (fst run0)))"

definition run_z2 :: "StakeVault \<times> event list" where
  "run_z2 = commit run_z1 (transact True (attestCompletion 4 1000 1 0 (fst run_z1)))"

section \<open>Checked arithmetic and the loop of \<open>_sumUnlocked\<close>\<close>

lemma checked_add_Inr:
  "checked_add a b = Inr c \<longleftrightarrow> unat a + unat b < 2 ^ 256 \<and> c = a + b"
  by (auto simp: checked_add_def)

lemma checked_add_unat:
  assumes "checked_add a b = Inr c"
  shows "unat c = unat a + unat b"
proof -
  from assms have "unat a + unat b < 2 ^ LENGTH(256)" and "c = a + b"
    by (simp_all add: checked_add_Inr)
  then show ?thesis
    by (simp add: unat_add_lem [THEN iffD1])
qed

lemma checked_add_Inl:
  "checked_add a b = Inl e \<longleftrightarrow> 2 ^ 256 \<le> unat a + unat b \<and> e = Panic_0x11"
  by (auto simp: checked_add_def)

lemma checked_mul_Inr:
  "checked_mul a b = Inr c \<longleftrightarrow> unat a * unat b < 2 ^ 256 \<and> c = a * b"
  by (auto simp: checked_mul_def)

lemma checked_mul_unat:
  assumes "checked_mul a b = Inr c"
  shows "unat c = unat a * unat b"
proof -
  from assms have "unat a * unat b < 2 ^ LENGTH(256)" and "c = a * b"
    by (simp_all add: checked_mul_Inr)
  then show ?thesis
    by (simp add: unat_mult_lem [THEN iffD1])
qed

lemma checked_sub_Inr:
  "checked_sub a b = Inr c \<longleftrightarrow> unat b \<le> unat a \<and> c = a - b"
  by (auto simp: checked_sub_def word_le_nat_alt)

lemma checked_sub_unat:
  assumes "checked_sub a b = Inr c"
  shows "unat c = unat a - unat b"
  using assms by (simp add: checked_sub_Inr unat_sub word_le_nat_alt)

lemma uint256_inc:
  fixes i d :: uint256
  assumes "i < d"
  shows "unat (i + 1) = unat i + 1" and "i + 1 \<le> j \<longleftrightarrow> i < j"
    and "i \<le> j \<longleftrightarrow> j = i \<or> i + 1 \<le> j"
proof -
  from assms have "unat i < unat d" by (simp add: word_less_nat_alt)
  moreover have "unat d < 2 ^ LENGTH(256)" by (rule unsigned_less)
  ultimately have "unat i + unat (1 :: uint256) < 2 ^ LENGTH(256)" by simp
  then show "unat (i + 1) = unat i + 1"
    by (simp add: unat_add_lem [THEN iffD1])
  then show "i + 1 \<le> j \<longleftrightarrow> i < j"
    by (simp add: word_le_nat_alt word_less_nat_alt Suc_le_eq)
  then show "i \<le> j \<longleftrightarrow> j = i \<or> i + 1 \<le> j"
    by (auto simp: word_le_less_eq)
qed

lemma card_below_le:
  fixes d :: uint256
  assumes "S \<subseteq> {j. j < d}"
  shows "card S \<le> unat d"
proof -
  have "inj_on unat S"
    by (rule inj_onI) (simp add: word_unat_eq_iff)
  then have "card S = card (unat ` S)"
    by (simp add: card_image)
  also have "unat ` S \<subseteq> {0..<unat d}"
    using assms by (auto simp: word_less_nat_alt)
  then have "card (unat ` S) \<le> card {0..<unat d}"
    by (intro card_mono) simp_all
  finally show ?thesis by simp
qed

lemma sumUnlocked_loop_result:
  "(\<forall>t. sumUnlocked_loop c d i tot = Inr t \<longrightarrow>
      unat t = unat tot + unat (dailySlice c) * card {j. i \<le> j \<and> j < d \<and> dayUnlocked c j})
   \<and> (\<forall>e. sumUnlocked_loop c d i tot = Inl e \<longrightarrow> e = Panic_0x11
      \<and> 2 ^ 256 \<le> unat tot + unat (dailySlice c) * card {j. i \<le> j \<and> j < d \<and> dayUnlocked c j})"
proof (induction c d i tot rule: sumUnlocked_loop.induct)
  case (1 c d i tot)
  let ?S = "\<lambda>k. {j. k \<le> j \<and> j < d \<and> dayUnlocked c j}"
  show ?case
  proof (cases "i < d")
    case False
    then have "?S i = {}" by auto
    with False show ?thesis by (subst (1 2) sumUnlocked_loop.simps) simp
  next
    case lt: True
    have fin: "finite (?S (i + 1))" by simp
    have notin: "i \<notin> ?S (i + 1)"
      using lt by (simp add: uint256_inc(2))
    have mem: "j \<in> ?S i \<longleftrightarrow> (j = i \<and> dayUnlocked c i) \<or> j \<in> ?S (i + 1)" for j
      unfolding mem_Collect_eq using lt uint256_inc(3) [OF lt, of j] by blast
    have split: "?S i = (if dayUnlocked c i then insert i (?S (i + 1)) else ?S (i + 1))"
    proof (rule set_eqI)
      fix j
      show "j \<in> ?S i \<longleftrightarrow> j \<in> (if dayUnlocked c i then insert i (?S (i + 1)) else ?S (i + 1))"
        unfolding mem [of j] by (cases "dayUnlocked c i") simp_all
    qed
    show ?thesis
    proof (cases "dayUnlocked c i")
      case False
      then have "card (?S i) = card (?S (i + 1))"
        using split by simp
      with lt False "1.IH"(2) show ?thesis
        by (subst (1 2) sumUnlocked_loop.simps) simp
    next
      case du: True
      then have cardS: "card (?S i) = Suc (card (?S (i + 1)))"
        using split fin notin by simp
      show ?thesis
      proof (cases "checked_add tot (dailySlice c)")
        case (Inl e)
        then have big: "2 ^ 256 \<le> unat tot + unat (dailySlice c)" and e: "e = Panic_0x11"
          by (simp_all add: checked_add_Inl)
        have "unat tot + unat (dailySlice c) \<le> unat tot + unat (dailySlice c) * card (?S i)"
          by (simp add: cardS)
        with big have "2 ^ 256 \<le> unat tot + unat (dailySlice c) * card (?S i)"
          by (rule order_trans)
        with lt du Inl e show ?thesis
          by (subst (1 2) sumUnlocked_loop.simps) simp
      next
        case (Inr t)
        have "unat t = unat tot + unat (dailySlice c)"
          by (rule checked_add_unat [OF Inr])
        with "1.IH"(1) [OF lt du Inr] lt du Inr cardS show ?thesis
          by (subst (1 2) sumUnlocked_loop.simps) (simp add: add.assoc)
      qed
    qed
  qed
qed

lemma sumUnlocked_Inr:
  assumes "sumUnlocked c = Inr t" and "unlockedDays c \<subseteq> {i. i < durationDays c}"
  shows "unat t = unlockedTotal c"
proof -
  have "{j. 0 \<le> j \<and> j < durationDays c \<and> dayUnlocked c j} = unlockedDays c"
    using assms(2) by (auto simp: unlockedDays_def)
  with sumUnlocked_loop_result [of c "durationDays c" 0 0] assms(1)
  show ?thesis
    by (simp add: sumUnlocked_def unlockedTotal_def)
qed

lemma unlockedTotal_le:
  assumes "unlockedDays c \<subseteq> {i. i < durationDays c}"
  shows "unlockedTotal c \<le> unat (dailySlice c) * unat (durationDays c)"
  using card_below_le [OF assms] by (simp add: unlockedTotal_def)

lemma sumUnlocked_total:
  assumes "unlockedDays c \<subseteq> {i. i < durationDays c}"
    and "unat (dailySlice c) * unat (durationDays c) \<le> unat (principal c)"
  shows "\<exists>t. sumUnlocked c = Inr t \<and> unat t = unlockedTotal c \<and> t \<le> principal c"
proof (cases "sumUnlocked c")
  case (Inl e)
  have S: "{j. j < durationDays c \<and> dayUnlocked c j} = unlockedDays c"
    using assms(1) by (auto simp: unlockedDays_def)
  from Inl sumUnlocked_loop_result [of c "durationDays c" 0 0]
  have "2 ^ 256 \<le> unlockedTotal c"
    by (simp add: sumUnlocked_def unlockedTotal_def S mult.commute)
  moreover have "unlockedTotal c \<le> unat (principal c)"
    using unlockedTotal_le [OF assms(1)] assms(2) by simp
  moreover have "unat (principal c) < 2 ^ LENGTH(256)"
    by (rule unsigned_less)
  ultimately show ?thesis by simp
next
  case (Inr t)
  have "unat t = unlockedTotal c"
    by (rule sumUnlocked_Inr [OF Inr assms(1)])
  moreover have "unlockedTotal c \<le> unat (principal c)"
    using unlockedTotal_le [OF assms(1)] assms(2) by simp
  ultimately show ?thesis using Inr by (simp add: word_le_nat_alt)
qed

section \<open>What a successful call has checked and written\<close>

lemma createChallenge_Returned:
  assumes "transact ok (createChallenge sender now benef amount start days s) = Returned cid s' evs"
  shows "benef \<noteq> 0" "amount \<noteq> 0" "days \<noteq> 0" "now \<le> start" "ok"
    "unat (nextChallengeId s) + 1 < 2 ^ 256"
    "cid = nextChallengeId s + 1"
    "s' = s\<lparr>nextChallengeId := cid, challenges := (challenges s)(cid := (challenges s cid)
           \<lparr>user := sender, beneficiary := benef, principal := amount,
            released := 0, penalized := 0, startTime := start,
            durationDays := days, dailySlice := amount div days, finalized := False\<rparr>)\<rparr>"
    "evs = [ChallengeCreated cid sender benef amount start days]"
  using assms
  by (auto simp: createChallenge_def transact_def checked_add_def checked_div_def Let_def word_greater_zero_iff
      split: if_splits)

lemma attestCompletion_Returned:
  assumes "transact ok (attestCompletion sender now cid dayIndex s) = Returned r s' evs"
  shows "sender = verifier s" "\<not> finalized (challenges s cid)" "user (challenges s cid) \<noteq> 0"
    "dayIndex < durationDays (challenges s cid)" "\<not> dayUnlocked (challenges s cid) dayIndex"
    "unat (startTime (challenges s cid)) + unat dayIndex * 86400 \<le> unat now"
    "unat (released (challenges s cid)) + unat (dailySlice (challenges s cid)) < 2 ^ 256"
    "s' = s\<lparr>challenges := (challenges s)(cid := (challenges s cid)
           \<lparr>dayUnlocked := (dayUnlocked (challenges s cid))(dayIndex := True),
            released := released (challenges s cid) + dailySlice (challenges s cid)\<rparr>)\<rparr>"
    "evs = [DayAttested cid dayIndex (dailySlice (challenges s cid))]"
proof -
  note a = assms [unfolded attestCompletion_def transact_def Let_def one_days_def]
  from a show "sender = verifier s" "\<not> finalized (challenges s cid)" "user (challenges s cid) \<noteq> 0"
    "dayIndex < durationDays (challenges s cid)" "\<not> dayUnlocked (challenges s cid) dayIndex"
    by (simp_all split: if_splits)
  with a obtain offset dayStart rel where
    m: "checked_mul dayIndex 86400 = Inr offset"
    and d: "checked_add (startTime (challenges s cid)) offset = Inr dayStart"
    and n: "dayStart \<le> now"
    and rl: "checked_add (released (challenges s cid)) (dailySlice (challenges s cid)) = Inr rel"
    and s': "s' = s\<lparr>challenges := (challenges s)(cid := (challenges s cid)
           \<lparr>dayUnlocked := (dayUnlocked (challenges s cid))(dayIndex := True), released := rel\<rparr>)\<rparr>"
    and evs: "evs = [DayAttested cid dayIndex (dailySlice (challenges s cid))]"
    by (simp split: if_splits sum.splits)
  from checked_mul_unat [OF m] checked_add_unat [OF d] n
  show "unat (startTime (challenges s cid)) + unat dayIndex * 86400 \<le> unat now"
    by (simp add: word_le_nat_alt)
  from rl show "unat (released (challenges s cid)) + unat (dailySlice (challenges s cid)) < 2 ^ 256"
    by (simp add: checked_add_Inr)
  from rl s' show "s' = s\<lparr>challenges := (challenges s)(cid := (challenges s cid)
           \<lparr>dayUnlocked := (dayUnlocked (challenges s cid))(dayIndex := True),
            released := released (challenges s cid) + dailySlice (challenges s cid)\<rparr>)\<rparr>"
    by (simp add: checked_add_Inr)
  from evs show "evs = [DayAttested cid dayIndex (dailySlice (challenges s cid))]" .
qed

lemma claimUnlocked_Returned:
  assumes "transact ok (claimUnlocked sender cid s) = Returned r s' evs"
  shows "user (challenges s cid) = sender" "released (challenges s cid) \<noteq> 0" "ok"
    "s' = s\<lparr>challenges := (challenges s)(cid := (challenges s cid)\<lparr>released := 0\<rparr>)\<rparr>"
    "evs = [Claimed cid sender (released (challenges s cid))]"
  using assms
  by (auto simp: claimUnlocked_def transact_def Let_def word_greater_zero_iff split: if_splits)

lemma finalize_Returned:
  assumes "transact ok (finalize now cid s) = Returned r s' evs"
  shows "\<not> finalized (challenges s cid)" "user (challenges s cid) \<noteq> 0"
    "unat (startTime (challenges s cid)) + unat (durationDays (challenges s cid)) * 86400 \<le> unat now"
    "\<exists>t. sumUnlocked (challenges s cid) = Inr t \<and> t \<le> principal (challenges s cid)
       \<and> unat (penalized (challenges s cid)) + (unat (principal (challenges s cid)) - unat t) < 2 ^ 256
       \<and> s' = s\<lparr>challenges := (challenges s)(cid := (challenges s cid)
           \<lparr>penalized := penalized (challenges s cid) + (principal (challenges s cid) - t),
            finalized := True\<rparr>)\<rparr>
       \<and> evs = [Finalized cid (principal (challenges s cid) - t)]
       \<and> (principal (challenges s cid) - t \<noteq> 0 \<longrightarrow> ok)"
proof -
  note a = assms [unfolded finalize_def transact_def Let_def one_days_def]
  from a show nf: "\<not> finalized (challenges s cid)" and u: "user (challenges s cid) \<noteq> 0"
    by (simp_all split: if_splits)
  with a obtain span endTime t remainder p where
    m: "checked_mul (durationDays (challenges s cid)) 86400 = Inr span"
    and d: "checked_add (startTime (challenges s cid)) span = Inr endTime"
    and n: "endTime \<le> now"
    and su: "sumUnlocked (challenges s cid) = Inr t"
    and sb: "checked_sub (principal (challenges s cid)) t = Inr remainder"
    and ad: "checked_add (penalized (challenges s cid)) remainder = Inr p"
    and rest: "(if 0 < remainder
          then (case ExternalCall (Transfer (beneficiary (challenges s cid)) remainder)
                  (s\<lparr>challenges := (challenges s)(cid := (challenges s cid)\<lparr>penalized := p, finalized := True\<rparr>)\<rparr>)
                  (\<lambda>ok. if ok then Returned ()
                     (s\<lparr>challenges := (challenges s)(cid := (challenges s cid)\<lparr>penalized := p, finalized := True\<rparr>)\<rparr>)
                     [Finalized cid remainder] else Reverted BENEFICIARY_XFER_FAIL) of
                Halt out \<Rightarrow> out | ExternalCall c s k \<Rightarrow> k ok)
          else Returned ()
                 (s\<lparr>challenges := (challenges s)(cid := (challenges s cid)\<lparr>penalized := p, finalized := True\<rparr>)\<rparr>)
                 [Finalized cid remainder]) = Returned r s' evs"
    by (simp split: if_splits sum.splits)
  from checked_mul_unat [OF m] checked_add_unat [OF d] n
  show "unat (startTime (challenges s cid)) + unat (durationDays (challenges s cid)) * 86400 \<le> unat now"
    by (simp add: word_le_nat_alt)
  from sb have rem: "remainder = principal (challenges s cid) - t" and le: "t \<le> principal (challenges s cid)"
    by (simp_all add: checked_sub_Inr word_le_nat_alt)
  from ad have p: "p = penalized (challenges s cid) + remainder"
    and pb: "unat (penalized (challenges s cid)) + unat remainder < 2 ^ 256"
    by (simp_all add: checked_add_Inr)
  from rest have "s' = s\<lparr>challenges := (challenges s)(cid := (challenges s cid)\<lparr>penalized := p, finalized := True\<rparr>)\<rparr>"
    and "evs = [Finalized cid remainder]" and "remainder \<noteq> 0 \<longrightarrow> ok"
    by (auto simp: word_greater_zero_iff split: if_splits)
  with su le rem p pb checked_sub_unat [OF sb]
  show "\<exists>t. sumUnlocked (challenges s cid) = Inr t \<and> t \<le> principal (challenges s cid)
       \<and> unat (penalized (challenges s cid)) + (unat (principal (challenges s cid)) - unat t) < 2 ^ 256
       \<and> s' = s\<lparr>challenges := (challenges s)(cid := (challenges s cid)
           \<lparr>penalized := penalized (challenges s cid) + (principal (challenges s cid) - t),
            finalized := True\<rparr>)\<rparr>
       \<and> evs = [Finalized cid (principal (challenges s cid) - t)]
       \<and> (principal (challenges s cid) - t \<noteq> 0 \<longrightarrow> ok)"
    by simp
qed

lemma setVerifier_Returned:
  assumes "transact ok (setVerifier sender v s) = Returned r s' evs"
  shows "sender = owner s" "s' = s\<lparr>verifier := v\<rparr>" "evs = []"
  using assms by (auto simp: setVerifier_def transact_def split: if_splits)

section \<open>The invariant holds in every reachable state\<close>

lemma log_append_simps:
  "claimedTotal cid (log @ [ChallengeCreated a b c d e f]) = claimedTotal cid log"
  "claimedTotal cid (log @ [DayAttested i d a]) = claimedTotal cid log"
  "claimedTotal cid (log @ [Finalized i a]) = claimedTotal cid log"
  "claimedTotal cid (log @ [Claimed i u a]) = claimedTotal cid log + (if i = cid then unat a else 0)"
  "finalizedCount cid (log @ [ChallengeCreated a b c d e f]) = finalizedCount cid log"
  "finalizedCount cid (log @ [DayAttested i d a]) = finalizedCount cid log"
  "finalizedCount cid (log @ [Claimed i u a]) = finalizedCount cid log"
  "finalizedCount cid (log @ [Finalized i a]) = finalizedCount cid log + (if i = cid then 1 else 0)"
  "attestedCount cid k (log @ [ChallengeCreated a b c d e f]) = attestedCount cid k log"
  "attestedCount cid k (log @ [Claimed i u a]) = attestedCount cid k log"
  "attestedCount cid k (log @ [Finalized i a]) = attestedCount cid k log"
  "attestedCount cid k (log @ [DayAttested i d a]) = attestedCount cid k log + (if i = cid \<and> d = k then 1 else 0)"
  by (simp_all add: claimedTotal_def finalizedCount_def attestedCount_def)

lemma unlocked_update_simps:
  "unlockedDays (c\<lparr>released := r\<rparr>) = unlockedDays c"
  "unlockedTotal (c\<lparr>released := r\<rparr>) = unlockedTotal c"
  "unlockedDays (c\<lparr>penalized := p, finalized := f\<rparr>) = unlockedDays c"
  "unlockedTotal (c\<lparr>penalized := p, finalized := f\<rparr>) = unlockedTotal c"
  by (simp_all add: unlockedDays_def unlockedTotal_def)

lemma vault_inv_challenge:
  assumes "vault_inv (s, log)"
  shows "challenge_inv log k (challenges s k)"
    and "k = 0 \<or> nextChallengeId s < k \<Longrightarrow> challenges s k = zeroChallenge"
  using assms by (auto simp: vault_inv_def)

lemma challenge_inv_zero:
  assumes "challenge_inv log cid zeroChallenge"
  shows "claimedTotal cid log = 0" "finalizedCount cid log = 0" "attestedCount cid i log = 0"
  using assms by (simp_all add: challenge_inv_def zeroChallenge_def unlockedTotal_def unlockedDays_def)

lemma createChallenge_inv:
  assumes inv: "vault_inv (s, log)"
    and ret: "transact ok (createChallenge sender now benef amount start days s) = Returned cid s' evs"
  shows "vault_inv (s', log @ evs)"
proof -
  note r = createChallenge_Returned [OF ret]
  from r(6) have "unat (nextChallengeId s) + unat (1 :: uint256) < 2 ^ LENGTH(256)" by simp
  then have ucid: "unat cid = unat (nextChallengeId s) + 1"
    unfolding r(7) by (simp add: unat_add_lem [THEN iffD1])
  then have fresh: "nextChallengeId s < cid" and nz: "cid \<noteq> 0"
    by (auto simp: word_less_nat_alt)
  from inv fresh have z: "challenges s cid = zeroChallenge"
    by (simp add: vault_inv_def)
  from inv have ci: "challenge_inv log k (challenges s k)" for k
    by (simp add: vault_inv_def)
  from challenge_inv_zero [OF ci [of cid, unfolded z]]
  have new: "challenge_inv (log @ evs) cid (challenges s' cid)"
    using r(2,3) unfolding r(8) r(9)
    by (simp add: challenge_inv_def z zeroChallenge_def log_append_simps unlockedTotal_def unlockedDays_def)
  have old: "challenge_inv (log @ evs) k (challenges s' k)" if "k \<noteq> cid" for k
    using ci [of k] that unfolding r(8) r(9)
    by (simp add: challenge_inv_def log_append_simps)
  have zero: "challenges s' k = zeroChallenge" if "k = 0 \<or> nextChallengeId s' < k" for k
  proof -
    from that have "k \<noteq> cid" "k = 0 \<or> nextChallengeId s < k"
      using nz fresh unfolding r(8) by auto
    with vault_inv_challenge(2) [OF inv, of k] show ?thesis unfolding r(8) by simp
  qed
  show ?thesis
    unfolding vault_inv_def using new old zero by (metis fst_conv snd_conv)
qed

lemma unlockedDays_update:
  assumes "\<not> dayUnlocked c i"
  shows "unlockedDays (c\<lparr>dayUnlocked := (dayUnlocked c)(i := True), released := r\<rparr>) = insert i (unlockedDays c)"
    and "unlockedTotal (c\<lparr>dayUnlocked := (dayUnlocked c)(i := True), released := r\<rparr>)
         = unlockedTotal c + unat (dailySlice c)"
proof -
  show u: "unlockedDays (c\<lparr>dayUnlocked := (dayUnlocked c)(i := True), released := r\<rparr>) = insert i (unlockedDays c)"
    by (auto simp: unlockedDays_def)
  have "i \<notin> unlockedDays c" "finite (unlockedDays c)"
    using assms by (simp_all add: unlockedDays_def)
  then show "unlockedTotal (c\<lparr>dayUnlocked := (dayUnlocked c)(i := True), released := r\<rparr>)
         = unlockedTotal c + unat (dailySlice c)"
    unfolding unlockedTotal_def u by simp
qed

lemma attestCompletion_inv:
  assumes inv: "vault_inv (s, log)"
    and ret: "transact ok (attestCompletion sender now cid dayIndex s) = Returned r s' evs"
  shows "vault_inv (s', log @ evs)"
proof -
  note r = attestCompletion_Returned [OF ret]
  let ?c = "challenges s cid"
  from inv have ci: "challenge_inv log k (challenges s k)" for k
    by (simp add: vault_inv_def)
  from r(7) have "unat (released ?c) + unat (dailySlice ?c) < 2 ^ LENGTH(256)" by simp
  then have rel: "unat (released ?c + dailySlice ?c) = unat (released ?c) + unat (dailySlice ?c)"
    by (simp add: unat_add_lem [THEN iffD1])
  have new: "challenge_inv (log @ evs) cid (challenges s' cid)"
    using ci [of cid] r(2,4,5) rel unfolding r(8) r(9)
    by (simp add: challenge_inv_def log_append_simps unlockedDays_update [OF r(5)])
  have old: "challenge_inv (log @ evs) k (challenges s' k)" if "k \<noteq> cid" for k
    using ci [of k] that unfolding r(8) r(9)
    by (simp add: challenge_inv_def log_append_simps)
  have zero: "challenges s' k = zeroChallenge" if "k = 0 \<or> nextChallengeId s' < k" for k
  proof -
    from that have z: "challenges s k = zeroChallenge"
      unfolding r(8) by (intro vault_inv_challenge(2) [OF inv]) simp
    with r(3) have "k \<noteq> cid" by (auto simp: zeroChallenge_def)
    with z show ?thesis unfolding r(8) by simp
  qed
  show ?thesis
    unfolding vault_inv_def using new old zero by (metis fst_conv snd_conv)
qed

lemma claimUnlocked_inv:
  assumes inv: "vault_inv (s, log)"
    and ret: "transact ok (claimUnlocked sender cid s) = Returned r s' evs"
  shows "vault_inv (s', log @ evs)"
proof -
  note r = claimUnlocked_Returned [OF ret]
  from inv have ci: "challenge_inv log k (challenges s k)" for k
    by (simp add: vault_inv_def)
  have new: "challenge_inv (log @ evs) cid (challenges s' cid)"
    using ci [of cid] unfolding r(4) r(5)
    by (simp add: challenge_inv_def log_append_simps unlocked_update_simps)
  have old: "challenge_inv (log @ evs) k (challenges s' k)" if "k \<noteq> cid" for k
    using ci [of k] that unfolding r(4) r(5)
    by (simp add: challenge_inv_def log_append_simps)
  have zero: "challenges s' k = zeroChallenge" if "k = 0 \<or> nextChallengeId s' < k" for k
  proof -
    from that have z: "challenges s k = zeroChallenge"
      unfolding r(4) by (intro vault_inv_challenge(2) [OF inv]) simp
    with r(2) have "k \<noteq> cid" by (auto simp: zeroChallenge_def)
    with z show ?thesis unfolding r(4) by simp
  qed
  show ?thesis
    unfolding vault_inv_def using new old zero by (metis fst_conv snd_conv)
qed

lemma finalize_inv:
  assumes inv: "vault_inv (s, log)"
    and ret: "transact ok (finalize now cid s) = Returned r s' evs"
  shows "vault_inv (s', log @ evs)"
proof -
  note r = finalize_Returned [OF ret]
  let ?c = "challenges s cid"
  from inv have ci: "challenge_inv log k (challenges s k)" for k
    by (simp add: vault_inv_def)
  from r(4) obtain t where su: "sumUnlocked ?c = Inr t" and le: "t \<le> principal ?c"
    and s': "s' = s\<lparr>challenges := (challenges s)(cid := ?c
           \<lparr>penalized := penalized ?c + (principal ?c - t), finalized := True\<rparr>)\<rparr>"
    and evs: "evs = [Finalized cid (principal ?c - t)]"
    by blast
  from ci [of cid] have sub: "unlockedDays ?c \<subseteq> {i. i < durationDays ?c}" and pz: "penalized ?c = 0"
    using r(1) by (simp_all add: challenge_inv_def)
  have t: "unat t = unlockedTotal ?c"
    by (rule sumUnlocked_Inr [OF su sub])
  have pen: "unat (penalized ?c + (principal ?c - t)) + unlockedTotal ?c = unat (principal ?c)"
    using le t by (simp add: pz unat_sub word_le_nat_alt)
  have new: "challenge_inv (log @ evs) cid (challenges s' cid)"
    using ci [of cid] r(1) pen unfolding s' evs
    by (simp add: challenge_inv_def log_append_simps unlocked_update_simps)
  have old: "challenge_inv (log @ evs) k (challenges s' k)" if "k \<noteq> cid" for k
    using ci [of k] that unfolding s' evs
    by (simp add: challenge_inv_def log_append_simps)
  have zero: "challenges s' k = zeroChallenge" if "k = 0 \<or> nextChallengeId s' < k" for k
  proof -
    from that have z: "challenges s k = zeroChallenge"
      unfolding s' by (intro vault_inv_challenge(2) [OF inv]) simp
    with r(2) have "k \<noteq> cid" by (auto simp: zeroChallenge_def)
    with z show ?thesis unfolding s' by simp
  qed
  show ?thesis
    unfolding vault_inv_def using new old zero by (metis fst_conv snd_conv)
qed

lemma setVerifier_inv:
  assumes inv: "vault_inv (s, log)"
    and ret: "transact ok (setVerifier sender v s) = Returned r s' evs"
  shows "vault_inv (s', log @ evs)"
  using inv unfolding setVerifier_Returned(2,3) [OF ret] by (simp add: vault_inv_def)

lemma commit_inv:
  assumes "vault_inv w"
    and "\<And>r s' evs. out = Returned r s' evs \<Longrightarrow> vault_inv (s', snd w @ evs)"
  shows "vault_inv (commit w out)"
  using assms by (cases out) (simp_all add: commit_def)

lemma step_inv:
  assumes "step w w'" and "vault_inv w"
  shows "vault_inv w'"
  using assms
proof (induction rule: step.induct)
  case (step_setVerifier w ok sender v)
  then show ?case by (intro commit_inv) (auto intro: setVerifier_inv [of "fst w" "snd w"])
next
  case (step_createChallenge w ok sender now benef amount start days)
  then show ?case by (intro commit_inv) (auto intro: createChallenge_inv [of "fst w" "snd w"])
next
  case (step_attestCompletion w ok sender now cid dayIndex)
  then show ?case by (intro commit_inv) (auto intro: attestCompletion_inv [of "fst w" "snd w"])
next
  case (step_claimUnlocked w ok sender cid)
  then show ?case by (intro commit_inv) (auto intro: claimUnlocked_inv [of "fst w" "snd w"])
next
  case (step_finalize w ok now cid)
  then show ?case by (intro commit_inv) (auto intro: finalize_inv [of "fst w" "snd w"])
qed

lemma deployed_inv:
  assumes "constructor sender self usdc v = Inr s"
  shows "vault_inv (s, [])"
proof -
  from assms have "challenges s = (\<lambda>_. zeroChallenge)"
    by (auto simp: constructor_def split: if_splits)
  then show ?thesis
    by (simp add: vault_inv_def challenge_inv_def zeroChallenge_def unlockedTotal_def unlockedDays_def
        claimedTotal_def finalizedCount_def attestedCount_def)
qed

lemma reachable_inv:
  assumes "reachable w"
  shows "vault_inv w"
  using assms by (induction rule: reachable.induct) (auto intro: deployed_inv step_inv)

section \<open>The run with principal 100, evaluated\<close>

lemmas op_defs = createChallenge_def attestCompletion_def claimUnlocked_def finalize_def
  setVerifier_def transact_def commit_def checked_add_def checked_sub_def checked_mul_def
  checked_div_def one_days_def Let_def

lemma run0_facts:
  "verifier (fst run0) = 4" "nextChallengeId (fst run0) = 0"
  "challenges (fst run0) = (\<lambda>_. zeroChallenge)" "snd run0 = []"
  by (simp_all add: run0_def vault0_def)

lemma run1_facts:
  "verifier (fst run1) = 4" "nextChallengeId (fst run1) = 1"
  "challenges (fst run1) 1 =
     \<lparr>user = 5, beneficiary = 6, principal = 100, released = 0, penalized = 0, startTime = 1000,
      durationDays = 7, dailySlice = 14, finalized = False, dayUnlocked = (\<lambda>_. False)\<rparr>"
  "snd run1 = [ChallengeCreated 1 5 6 100 1000 7]"
  by (simp_all add: run1_def run0_facts op_defs zeroChallenge_def)

lemma run2_facts:
  "verifier (fst run2) = 4" "nextChallengeId (fst run2) = 1"
  "challenges (fst run2) 1 =
     \<lparr>user = 5, beneficiary = 6, principal = 100, released = 14, penalized = 0, startTime = 1000,
      durationDays = 7, dailySlice = 14, finalized = False,
      dayUnlocked = (\<lambda>_. False)(0 := True)\<rparr>"
  "snd run2 = [ChallengeCreated 1 5 6 100 1000 7, DayAttested 1 0 14]"
  by (simp_all add: run2_def run1_facts op_defs)

lemma run3_facts:
  "verifier (fst run3) = 4" "nextChallengeId (fst run3) = 1"
  "challenges (fst run3) 1 =
     \<lparr>user = 5, beneficiary = 6, principal = 100, released = 28, penalized = 0, startTime = 1000,
      durationDays = 7, dailySlice = 14, finalized = False,
      dayUnlocked = (\<lambda>_. False)(0 := True, 1 := True)\<rparr>"
  "snd run3 = [ChallengeCreated 1 5 6 100 1000 7, DayAttested 1 0 14, DayAttested 1 1 14]"
  by (simp_all add: run3_def run2_facts op_defs)

lemma run4_facts:
  "verifier (fst run4) = 4" "nextChallengeId (fst run4) = 1"
  "challenges (fst run4) 1 =
     \<lparr>user = 5, beneficiary = 6, principal = 100, released = 0, penalized = 0, startTime = 1000,
      durationDays = 7, dailySlice = 14, finalized = False,
      dayUnlocked = (\<lambda>_. False)(0 := True, 1 := True)\<rparr>"
  "snd run4 = [ChallengeCreated 1 5 6 100 1000 7, DayAttested 1 0 14, DayAttested 1 1 14,
             Claimed 1 5 28]"
  by (simp_all add: run4_def run3_facts op_defs)

lemma run5_facts:
  "verifier (fst run5) = 4" "nextChallengeId (fst run5) = 1"
  "challenges (fst run5) 1 =
     \<lparr>user = 5, beneficiary = 6, principal = 100, released = 14, penalized = 0, startTime = 1000,
      durationDays = 7, dailySlice = 14, finalized = False,
      dayUnlocked = (\<lambda>_. False)(0 := True, 1 := True, 2 := True)\<rparr>"
  "snd run5 = [ChallengeCreated 1 5 6 100 1000 7, DayAttested 1 0 14, DayAttested 1 1 14,
             Claimed 1 5 28, DayAttested 1 2 14]"
  by (simp_all add: run5_def run4_facts op_defs)

lemma run5_sumUnlocked: "sumUnlocked (challenges (fst run5) 1) = Inr 42"
  by (simp add: run5_facts sumUnlocked_def sumUnlocked_loop.simps checked_add_def)

lemma run6_facts:
  "verifier (fst run6) = 4" "nextChallengeId (fst run6) = 1"
  "challenges (fst run6) 1 =
     \<lparr>user = 5, beneficiary = 6, principal = 100, released = 14, penalized = 58, startTime = 1000,
      durationDays = 7, dailySlice = 14, finalized = True,
      dayUnlocked = (\<lambda>_. False)(0 := True, 1 := True, 2 := True)\<rparr>"
  "snd run6 = [ChallengeCreated 1 5 6 100 1000 7, DayAttested 1 0 14, DayAttested 1 1 14,
             Claimed 1 5 28, DayAttested 1 2 14, Finalized 1 58]"
proof -
  have f: "transact True (finalize 605800 1 (fst run5)) =
      Returned () ((fst run5)\<lparr>challenges := (challenges (fst run5))
         (1 := (challenges (fst run5) 1)\<lparr>penalized := 58, finalized := True\<rparr>)\<rparr>) [Finalized 1 58]"
    unfolding finalize_def Let_def run5_sumUnlocked
    by (simp add: run5_facts transact_def checked_add_def checked_sub_def checked_mul_def one_days_def)
  show "verifier (fst run6) = 4" "nextChallengeId (fst run6) = 1"
    "challenges (fst run6) 1 =
     \<lparr>user = 5, beneficiary = 6, principal = 100, released = 14, penalized = 58, startTime = 1000,
      durationDays = 7, dailySlice = 14, finalized = True,
      dayUnlocked = (\<lambda>_. False)(0 := True, 1 := True, 2 := True)\<rparr>"
    "snd run6 = [ChallengeCreated 1 5 6 100 1000 7, DayAttested 1 0 14, DayAttested 1 1 14,
             Claimed 1 5 28, DayAttested 1 2 14, Finalized 1 58]"
    unfolding run6_def f by (simp_all add: commit_def run5_facts)
qed

lemma run_steps:
  "step run0 run1" "step run1 run2" "step run2 run3" "step run3 run4" "step run4 run5" "step run5 run6"
  unfolding run1_def run2_def run3_def run4_def run5_def run6_def
  by (rule step.intros)+

lemma run_reachable:
  "reachable run0" "reachable run1" "reachable run2" "reachable run3" "reachable run4" "reachable run5"
  "reachable run6"
proof -
  have "constructor 1 2 3 4 = Inr vault0"
    by (simp add: constructor_def vault0_def)
  then show r0: "reachable run0"
    unfolding run0_def by (rule deployed)
  from r0 run_steps(1) show r1: "reachable run1" by (rule stepped)
  from r1 run_steps(2) show r2: "reachable run2" by (rule stepped)
  from r2 run_steps(3) show r3: "reachable run3" by (rule stepped)
  from r3 run_steps(4) show r4: "reachable run4" by (rule stepped)
  from r4 run_steps(5) show r5: "reachable run5" by (rule stepped)
  from r5 run_steps(6) show "reachable run6" by (rule stepped)
qed

section \<open>What later calls keep of a challenge\<close>

lemma keeps_refl: "keeps c c"
  by (simp add: keeps_def)

lemma keeps_trans: "keeps a b \<Longrightarrow> keeps b c \<Longrightarrow> keeps a c"
  by (simp add: keeps_def)

lemma commit_cases:
  assumes "P w"
    and "\<And>r s' evs. out = Returned r s' evs \<Longrightarrow> P (s', snd w @ evs)"
  shows "P (commit w out)"
  using assms by (cases out) (simp_all add: commit_def)

lemma step_keeps:
  assumes "step w w'" and inv: "vault_inv w" and u: "user (challenges (fst w) cid) \<noteq> 0"
  shows "keeps (challenges (fst w) cid) (challenges (fst w') cid)"
  using assms(1)
proof (cases rule: step.cases)
  case (step_setVerifier ok sender v)
  show ?thesis unfolding step_setVerifier
    by (rule commit_cases) (auto simp: keeps_refl dest!: setVerifier_Returned(2))
next
  case (step_createChallenge ok sender now benef amount start days)
  show ?thesis unfolding step_createChallenge
  proof (rule commit_cases)
    show "keeps (challenges (fst w) cid) (challenges (fst w) cid)" by (rule keeps_refl)
  next
    fix r s' evs
    assume ret: "transact ok (createChallenge sender now benef amount start days (fst w)) = Returned r s' evs"
    note c = createChallenge_Returned [OF ret]
    from c(6) have "unat (nextChallengeId (fst w)) + unat (1 :: uint256) < 2 ^ LENGTH(256)" by simp
    then have "unat r = unat (nextChallengeId (fst w)) + 1"
      unfolding c(7) by (simp add: unat_add_lem [THEN iffD1])
    then have "nextChallengeId (fst w) < r"
      by (simp add: word_less_nat_alt)
    then have "challenges (fst w) r = zeroChallenge"
      using inv by (simp add: vault_inv_def)
    with u have "cid \<noteq> r" by (auto simp: zeroChallenge_def)
    then show "keeps (challenges (fst w) cid) (challenges (fst (s', snd w @ evs)) cid)"
      unfolding c(8) by (simp add: keeps_refl)
  qed
next
  case (step_attestCompletion ok sender now k dayIndex)
  show ?thesis unfolding step_attestCompletion
    by (rule commit_cases) (auto simp: keeps_def dest!: attestCompletion_Returned(8))
next
  case (step_claimUnlocked ok sender k)
  show ?thesis unfolding step_claimUnlocked
    by (rule commit_cases) (auto simp: keeps_def dest!: claimUnlocked_Returned(4))
next
  case (step_finalize ok now k)
  show ?thesis unfolding step_finalize
    by (rule commit_cases) (auto simp: keeps_def dest!: finalize_Returned(4))
qed

lemma steps_keeps:
  assumes "step\<^sup>*\<^sup>* w w'" and "vault_inv w" and "user (challenges (fst w) cid) \<noteq> 0"
  shows "vault_inv w' \<and> keeps (challenges (fst w) cid) (challenges (fst w') cid)"
  using assms
proof (induction rule: rtranclp_induct)
  case base
  then show ?case by (simp add: keeps_refl)
next
  case (step y z)
  then have i: "vault_inv y" and k: "keeps (challenges (fst w) cid) (challenges (fst y) cid)"
    by simp_all
  from k step.prems(2) have "user (challenges (fst y) cid) \<noteq> 0"
    by (simp add: keeps_def)
  from step_keeps [OF step.hyps(2) i this] k step_inv [OF step.hyps(2) i]
  show ?case by (blast intro: keeps_trans)
qed

lemma reverted_commit: "out = Reverted e \<Longrightarrow> commit w out = w"
  by (simp add: commit_def)

section \<open>More of the runs, and bounds from the invariant\<close>

lemma run6_after_reverts:
  "transact True (finalize 700000 1 (fst run6)) = Reverted FINALIZED"
  "transact True (attestCompletion 4 700000 1 3 (fst run6)) = Reverted FINALIZED"
  "transact True (attestCompletion 4 700000 1 0 (fst run6)) = Reverted FINALIZED"
  "transact True (attestCompletion 5 700000 1 3 (fst run6)) = Reverted NOT_VERIFIER"
  by (simp_all add: finalize_def attestCompletion_def transact_def run6_facts)

lemma run5_finalize:
  "transact True (finalize 605800 1 (fst run5)) = Returned () (fst run6) [Finalized 1 58]"
proof -
  have f: "transact True (finalize 605800 1 (fst run5)) =
      Returned () ((fst run5)\<lparr>challenges := (challenges (fst run5))
         (1 := (challenges (fst run5) 1)\<lparr>penalized := 58, finalized := True\<rparr>)\<rparr>) [Finalized 1 58]"
    unfolding finalize_def Let_def run5_sumUnlocked
    by (simp add: run5_facts transact_def checked_add_def checked_sub_def checked_mul_def one_days_def)
  show ?thesis
    unfolding run6_def f by (simp add: commit_def f)
qed

lemma run1_attest:
  "transact True (attestCompletion 4 1000 1 0 (fst run1)) = Returned () (fst run2) [DayAttested 1 0 14]"
proof -
  have "\<exists>s. transact True (attestCompletion 4 1000 1 0 (fst run1)) = Returned () s [DayAttested 1 0 14]"
    by (simp add: run1_facts op_defs)
  then obtain s where s: "transact True (attestCompletion 4 1000 1 0 (fst run1)) = Returned () s [DayAttested 1 0 14]"
    by blast
  have "run2 = commit run1 (transact True (attestCompletion 4 1000 1 0 (fst run1)))"
    by (rule run2_def)
  then have "run2 = (s, snd run1 @ [DayAttested 1 0 14])"
    by (simp add: s commit_def)
  then have "fst run2 = fst (s, snd run1 @ [DayAttested 1 0 14])"
    by (rule arg_cong)
  with s show ?thesis by simp
qed

lemma run2_eq: "run2 = (fst run2, snd run1 @ [DayAttested 1 0 14])"
proof -
  have "run2 = commit run1 (transact True (attestCompletion 4 1000 1 0 (fst run1)))"
    by (rule run2_def)
  also have "\<dots> = (fst run2, snd run1 @ [DayAttested 1 0 14])"
    by (simp add: run1_attest commit_def)
  finally show ?thesis .
qed

lemma run2_steps_run6: "step\<^sup>*\<^sup>* run2 run6"
proof -
  have "step\<^sup>*\<^sup>* run2 run3" using run_steps(3) by (rule r_into_rtranclp)
  also have "step\<^sup>*\<^sup>* run3 run4" using run_steps(4) by (rule r_into_rtranclp)
  also have "step\<^sup>*\<^sup>* run4 run5" using run_steps(5) by (rule r_into_rtranclp)
  also have "step\<^sup>*\<^sup>* run5 run6" using run_steps(6) by (rule r_into_rtranclp)
  finally show ?thesis .
qed

lemma slice_bound:
  assumes "dailySlice c = principal c div durationDays c"
  shows "unat (dailySlice c) * unat (durationDays c) \<le> unat (principal c)"
  by (simp add: assms unat_div)

lemma room_for_slice:
  assumes ci: "challenge_inv log cid c"
    and lt: "dayIndex < durationDays c" and nu: "\<not> dayUnlocked c dayIndex"
  shows "unat (released c) + unat (dailySlice c) \<le> unat (principal c)"
proof -
  from ci have sub: "unlockedDays c \<subseteq> {i. i < durationDays c}"
    and sl: "dailySlice c = principal c div durationDays c"
    and bal: "claimedTotal cid log + unat (released c) = unlockedTotal c"
    by (simp_all add: challenge_inv_def)
  have "insert dayIndex (unlockedDays c) \<subseteq> {i. i < durationDays c}"
    using sub lt by simp
  from card_below_le [OF this] have "Suc (card (unlockedDays c)) \<le> unat (durationDays c)"
    using nu by (simp add: unlockedDays_def)
  then have "unat (dailySlice c) * Suc (card (unlockedDays c))
      \<le> unat (dailySlice c) * unat (durationDays c)"
    by (rule mult_le_mono2)
  also have "\<dots> \<le> unat (principal c)"
    by (rule slice_bound [OF sl])
  finally have "unlockedTotal c + unat (dailySlice c) \<le> unat (principal c)"
    by (simp add: unlockedTotal_def mult.commute add.commute)
  with bal show ?thesis by simp
qed

lemma run_max_facts:
  "verifier (fst run_max) = 4"
  "challenges (fst run_max) 1 =
     \<lparr>user = 5, beneficiary = 6, principal = 100, released = 0, penalized = 0,
      startTime = MAX_UINT256, durationDays = 7, dailySlice = 14, finalized = False,
      dayUnlocked = (\<lambda>_. False)\<rparr>"
  "snd run_max = [ChallengeCreated 1 5 6 100 MAX_UINT256 7]"
  by (simp_all add: run_max_def run0_facts op_defs zeroChallenge_def MAX_UINT256_def)

lemma run_max_reachable: "reachable run_max"
proof -
  have "step run0 run_max"
    unfolding run_max_def by (rule step.intros)
  with run_reachable(1) show ?thesis by (rule stepped)
qed

lemma conserved:
  assumes "challenge_inv log cid c"
  shows "claimedTotal cid log + unat (released c) + unat (penalized c) \<le> unat (principal c)"
    and "finalized c \<Longrightarrow>
      claimedTotal cid log + unat (released c) + unat (penalized c) = unat (principal c)"
    and "finalized c \<Longrightarrow> unat (penalized c) + unlockedTotal c = unat (principal c)"
proof -
  from assms have sub: "unlockedDays c \<subseteq> {i. i < durationDays c}"
    and sl: "dailySlice c = principal c div durationDays c"
    and bal: "claimedTotal cid log + unat (released c) = unlockedTotal c"
    and pen: "if finalized c then unat (penalized c) + unlockedTotal c = unat (principal c)
              else penalized c = 0"
    by (simp_all add: challenge_inv_def)
  have le: "unlockedTotal c \<le> unat (principal c)"
    using unlockedTotal_le [OF sub] slice_bound [OF sl] by simp
  show "claimedTotal cid log + unat (released c) + unat (penalized c) \<le> unat (principal c)"
    using bal pen le by (cases "finalized c") simp_all
  show "finalized c \<Longrightarrow>
      claimedTotal cid log + unat (released c) + unat (penalized c) = unat (principal c)"
    using bal pen by simp
  show "finalized c \<Longrightarrow> unat (penalized c) + unlockedTotal c = unat (principal c)"
    using pen by simp
qed

lemma zero_slice:
  assumes ci: "challenge_inv log cid c" and lt: "principal c < durationDays c"
  shows "dailySlice c = 0" and "released c = 0" and "unlockedTotal c = 0"
proof -
  from ci have sl: "dailySlice c = principal c div durationDays c"
    and bal: "claimedTotal cid log + unat (released c) = unlockedTotal c"
    by (simp_all add: challenge_inv_def)
  from lt have "unat (principal c) < unat (durationDays c)"
    by (simp add: word_less_nat_alt)
  then have "unat (dailySlice c) = 0"
    by (simp add: sl unat_div)
  then show z: "dailySlice c = 0"
    by (simp add: unat_eq_0)
  then show u: "unlockedTotal c = 0"
    by (simp add: unlockedTotal_def)
  with bal show "released c = 0"
    by (simp add: unat_eq_0)
qed

lemma run_z1_facts:
  "verifier (fst run_z1) = 4"
  "challenges (fst run_z1) 1 =
     \<lparr>user = 5, beneficiary = 6, principal = 3, released = 0, penalized = 0, startTime = 1000,
      durationDays = 7, dailySlice = 0, finalized = False, dayUnlocked = (\<lambda>_. False)\<rparr>"
  by (simp_all add: run_z1_def run0_facts op_defs zeroChallenge_def)

lemma run_z2_facts:
  "verifier (fst run_z2) = 4"
  "challenges (fst run_z2) 1 =
     \<lparr>user = 5, beneficiary = 6, principal = 3, released = 0, penalized = 0, startTime = 1000,
      durationDays = 7, dailySlice = 0, finalized = False,
      dayUnlocked = (\<lambda>_. False)(0 := True)\<rparr>"
  by (simp_all add: run_z2_def run_z1_facts op_defs)

lemma run_z_reachable: "reachable run_z1" "reachable run_z2"
proof -
  have "step run0 run_z1"
    unfolding run_z1_def by (rule step.intros)
  with run_reachable(1) show r: "reachable run_z1" by (rule stepped)
  have "step run_z1 run_z2"
    unfolding run_z2_def by (rule step.intros)
  with r show "reachable run_z2" by (rule stepped)
qed

section \<open>The claims\<close>

subsection \<open>C8: the daily slice is the floor of amount by duration\<close>

text \<open>
  Claim C8. After every successful \<open>createChallenge\<close> (which needs \<open>amount > 0\<close> and
  \<open>durationDays > 0\<close>), the stored \<open>dailySlice\<close> is the floor of \<open>amount / durationDays\<close>,
  so \<open>dailySlice * durationDays \<le> principal\<close>, and the difference is the remainder of the
  division, which is less than \<open>durationDays\<close>. The values are read as natural numbers
  (\<open>unat\<close>), so the product is the true one, not one reduced modulo \<open>2 ^ 256\<close>.
\<close>

theorem createChallenge_dailySlice:
  assumes "transact ok (createChallenge sender now benef amount start days s) = Returned cid s' evs"
  shows "0 < amount \<and> 0 < days
    \<and> principal (challenges s' cid) = amount \<and> durationDays (challenges s' cid) = days
    \<and> dailySlice (challenges s' cid) = amount div days
    \<and> unat (dailySlice (challenges s' cid)) = unat amount div unat days
    \<and> unat (dailySlice (challenges s' cid)) * unat (durationDays (challenges s' cid))
         \<le> unat (principal (challenges s' cid))
    \<and> unat (principal (challenges s' cid))
         - unat (dailySlice (challenges s' cid)) * unat (durationDays (challenges s' cid))
       = unat amount mod unat days
    \<and> unat amount mod unat days < unat days"
proof -
  note r = createChallenge_Returned [OF assms]
  have d: "0 < unat days" using r(3) by (simp add: unat_gt_0)
  have sl: "dailySlice (challenges s' cid) = amount div days"
    and p: "principal (challenges s' cid) = amount" "durationDays (challenges s' cid) = days"
    using r(8) by simp_all
  have m: "unat amount - unat amount div unat days * unat days = unat amount mod unat days"
    by (simp add: minus_div_mult_eq_mod)
  show ?thesis
    using r(2,3) d p m by (simp add: sl unat_div word_greater_zero_iff)
qed

theorem createChallenge_dailySlice_witness:
  "dailySlice (challenges (fst run1) 1) = 14
   \<and> unat (14 :: uint256) * unat (7 :: uint256) \<le> unat (100 :: uint256)
   \<and> unat (100 :: uint256) - unat (14 :: uint256) * unat (7 :: uint256) = 2"
proof -
  have "transact True (createChallenge 5 1000 6 100 1000 7 (fst run0)) =
      Returned 1 (fst run1) [ChallengeCreated 1 5 6 100 1000 7]"
    by (simp add: run1_def run0_facts op_defs)
  from createChallenge_dailySlice [OF this] show ?thesis
    by simp
qed

subsection \<open>C7: validation failures of \<open>createChallenge\<close>\<close>

text \<open>
  Claim C7, amended. The checks run in the order beneficiary, amount, duration, start
  time, and the first that fails gives the error: with \<open>durationDays = 0\<close> the call fails
  with \<open>DURATION_ZERO\<close> when the beneficiary is not the zero address and the amount is
  not zero. Every validation failure ends the call before the token is called
  (\<open>Halt\<close>, not \<open>ExternalCall\<close>) and leaves the storage and the log as they were.
\<close>

theorem createChallenge_validation:
  "(benef = 0 \<longrightarrow>
      createChallenge sender now benef amount start days s = Halt (Reverted BENEFICIARY_ZERO))
   \<and> (benef \<noteq> 0 \<and> amount = 0 \<longrightarrow>
      createChallenge sender now benef amount start days s = Halt (Reverted AMOUNT_ZERO))
   \<and> (benef \<noteq> 0 \<and> amount \<noteq> 0 \<and> days = 0 \<longrightarrow>
      createChallenge sender now benef amount start days s = Halt (Reverted DURATION_ZERO))
   \<and> (benef \<noteq> 0 \<and> amount \<noteq> 0 \<and> days \<noteq> 0 \<and> start < now \<longrightarrow>
      createChallenge sender now benef amount start days s = Halt (Reverted START_PAST))
   \<and> (benef = 0 \<or> amount = 0 \<or> days = 0 \<or> start < now \<longrightarrow>
      (\<exists>e. createChallenge sender now benef amount start days s = Halt (Reverted e))
      \<and> commit (s, log) (transact ok (createChallenge sender now benef amount start days s))
          = (s, log))"
  by (auto simp: createChallenge_def commit_def transact_def word_greater_zero_iff not_le)

theorem createChallenge_validation_witness:
  "createChallenge 5 1000 6 100 1000 0 vault0 = Halt (Reverted DURATION_ZERO)
   \<and> commit (vault0, []) (transact True (createChallenge 5 1000 6 100 1000 0 vault0)) = (vault0, [])"
  using createChallenge_validation [of 6 5 1000 100 1000 0 vault0 "[]" True]
  by (simp add: transact_def commit_def)

text \<open>
  Claim C7 as stated fails: with \<open>durationDays = 0\<close> and the zero address as beneficiary
  the error is \<open>BENEFICIARY_ZERO\<close>, not \<open>DURATION_ZERO\<close>.
\<close>

theorem createChallenge_zero_duration_counterexample:
  "transact True (createChallenge 5 1000 0 100 1000 0 vault0) = Reverted BENEFICIARY_ZERO
   \<and> transact True (createChallenge 5 1000 0 100 1000 0 vault0) \<noteq> Reverted DURATION_ZERO"
  by (simp add: createChallenge_def transact_def)

subsection \<open>C2: \<open>claimUnlocked\<close> zeroes \<open>released\<close>, then pays it\<close>

text \<open>
  Claim C2. For a challenge with \<open>released > 0\<close>, \<open>claimUnlocked\<close> called by its owner
  calls the token with \<open>transfer(owner, released)\<close>, the value \<open>released\<close> had
  before the call, and the storage at the moment of that call already has \<open>released = 0\<close>
  for the challenge. The call succeeds when the token answers true, and after every
  successful call the storage is the one of that moment, with \<open>released = 0\<close>.
\<close>

theorem claimUnlocked_zeroes_then_pays:
  assumes "user (challenges s cid) = sender" and "0 < released (challenges s cid)"
  shows "\<exists>s1 k.
     claimUnlocked sender cid s = ExternalCall (Transfer sender (released (challenges s cid))) s1 k
     \<and> released (challenges s1 cid) = 0
     \<and> s1 = s\<lparr>challenges := (challenges s)(cid := (challenges s cid)\<lparr>released := 0\<rparr>)\<rparr>
     \<and> k True = Returned () s1 [Claimed cid sender (released (challenges s cid))]
     \<and> transact True (claimUnlocked sender cid s)
         = Returned () s1 [Claimed cid sender (released (challenges s cid))]
     \<and> (\<forall>ok r s' evs. transact ok (claimUnlocked sender cid s) = Returned r s' evs \<longrightarrow>
           ok \<and> s' = s1 \<and> released (challenges s' cid) = 0
           \<and> evs = [Claimed cid sender (released (challenges s cid))])"
  using assms
  by (auto simp: claimUnlocked_def transact_def Let_def split: if_splits)

theorem claimUnlocked_zeroes_then_pays_witness:
  "\<exists>s1 k. claimUnlocked 5 1 (fst run3) = ExternalCall (Transfer 5 28) s1 k
     \<and> released (challenges s1 1) = 0
     \<and> transact True (claimUnlocked 5 1 (fst run3)) = Returned () s1 [Claimed 1 5 28]"
proof -
  have "user (challenges (fst run3) 1) = 5" "0 < released (challenges (fst run3) 1)"
    by (simp_all add: run3_facts)
  from claimUnlocked_zeroes_then_pays [OF this] obtain s1 k where
    "claimUnlocked 5 1 (fst run3) = ExternalCall (Transfer 5 (released (challenges (fst run3) 1))) s1 k"
    "released (challenges s1 1) = 0"
    "transact True (claimUnlocked 5 1 (fst run3))
       = Returned () s1 [Claimed 1 5 (released (challenges (fst run3) 1))]"
    by blast
  then show ?thesis
    by (auto simp: run3_facts)
qed

subsection \<open>C3: a failed payout in \<open>claimUnlocked\<close>\<close>

text \<open>
  Claim C3. When the token answers false to the payout of \<open>claimUnlocked\<close> (the payout is
  attempted when the caller is the owner and \<open>released > 0\<close>), the call reverts with
  \<open>TRANSFER_FAIL\<close>, and the storage and the log are as before the call, \<open>released\<close>
  included. A retry with a token that answers true calls \<open>transfer(owner, released)\<close>
  with the same amount, logs one \<open>Claimed\<close> event, and leaves \<open>released = 0\<close>, so that
  any further claim reverts with \<open>NOTHING_TO_CLAIM\<close>.
\<close>

theorem claimUnlocked_failed_payout:
  assumes "user (challenges s cid) = sender" and "0 < released (challenges s cid)"
  shows "transact False (claimUnlocked sender cid s) = Reverted TRANSFER_FAIL
     \<and> commit (s, log) (transact False (claimUnlocked sender cid s)) = (s, log)
     \<and> (\<exists>s1 k. claimUnlocked sender cid (fst (commit (s, log) (transact False (claimUnlocked sender cid s))))
           = ExternalCall (Transfer sender (released (challenges s cid))) s1 k
         \<and> commit (commit (s, log) (transact False (claimUnlocked sender cid s)))
             (transact True (claimUnlocked sender cid
                (fst (commit (s, log) (transact False (claimUnlocked sender cid s))))))
           = (s1, log @ [Claimed cid sender (released (challenges s cid))])
         \<and> released (challenges s1 cid) = 0
         \<and> (\<forall>ok. transact ok (claimUnlocked sender cid s1) = Reverted NOTHING_TO_CLAIM))"
  using assms
  by (auto simp: claimUnlocked_def transact_def commit_def Let_def split: if_splits)

theorem claimUnlocked_failed_payout_witness:
  "transact False (claimUnlocked 5 1 (fst run3)) = Reverted TRANSFER_FAIL
   \<and> commit (fst run3, snd run3) (transact False (claimUnlocked 5 1 (fst run3))) = (fst run3, snd run3)
   \<and> snd (commit (fst run3, snd run3) (transact True (claimUnlocked 5 1 (fst run3))))
       = snd run3 @ [Claimed 1 5 28]"
proof -
  have "user (challenges (fst run3) 1) = 5" "0 < released (challenges (fst run3) 1)"
    by (simp_all add: run3_facts)
  from claimUnlocked_failed_payout [OF this, of "snd run3"] show ?thesis
    by (auto simp: run3_facts(3))
qed

subsection \<open>C9: claiming after finalization\<close>

text \<open>
  Claim C9. \<open>claimUnlocked\<close> does not read \<open>finalized\<close>: on a finalized challenge with
  \<open>released > 0\<close> the owner's claim succeeds (when the token answers true) and pays
  \<open>released\<close>. A successful \<open>finalize\<close> sets \<open>finalized\<close> and leaves \<open>released\<close> and the
  owner as they were.
\<close>

theorem claimUnlocked_after_finalize:
  "(finalized (challenges s cid) \<and> user (challenges s cid) = sender
      \<and> 0 < released (challenges s cid) \<longrightarrow>
      (\<exists>s1 k. claimUnlocked sender cid s
           = ExternalCall (Transfer sender (released (challenges s cid))) s1 k
         \<and> transact True (claimUnlocked sender cid s)
           = Returned () s1 [Claimed cid sender (released (challenges s cid))]))
   \<and> (\<forall>ok now r s' evs. transact ok (finalize now cid s) = Returned r s' evs \<longrightarrow>
         finalized (challenges s' cid)
         \<and> released (challenges s' cid) = released (challenges s cid)
         \<and> user (challenges s' cid) = user (challenges s cid))"
proof (intro conjI impI allI)
  assume "finalized (challenges s cid) \<and> user (challenges s cid) = sender
      \<and> 0 < released (challenges s cid)"
  then show "\<exists>s1 k. claimUnlocked sender cid s
           = ExternalCall (Transfer sender (released (challenges s cid))) s1 k
         \<and> transact True (claimUnlocked sender cid s)
           = Returned () s1 [Claimed cid sender (released (challenges s cid))]"
    by (auto simp: claimUnlocked_def transact_def Let_def)
next
  fix ok now r s' evs
  assume "transact ok (finalize now cid s) = Returned r s' evs"
  from finalize_Returned(4) [OF this]
  show "finalized (challenges s' cid)"
    "released (challenges s' cid) = released (challenges s cid)"
    "user (challenges s' cid) = user (challenges s cid)"
    by auto
qed

theorem claimUnlocked_after_finalize_witness:
  "finalized (challenges (fst run6) 1)
   \<and> (\<exists>s1 k. claimUnlocked 5 1 (fst run6) = ExternalCall (Transfer 5 14) s1 k
         \<and> transact True (claimUnlocked 5 1 (fst run6)) = Returned () s1 [Claimed 1 5 14])"
  using claimUnlocked_after_finalize [of "fst run6" 1 5] by (simp add: run6_facts)

subsection \<open>C4: a finalized challenge stays finalized\<close>

text \<open>
  Claim C4, amended. Once \<open>finalize\<close> has succeeded on a challenge, then after any further
  calls of the contract every \<open>finalize\<close> on it reverts with \<open>FINALIZED\<close>, and every
  \<open>attestCompletion\<close> on it reverts, with \<open>FINALIZED\<close> when the caller is the verifier and
  with \<open>NOT_VERIFIER\<close> otherwise (the modifier \<open>onlyVerifier\<close> runs first); neither
  changes the storage or the log, and the log holds exactly one \<open>Finalized\<close> event of the
  challenge, so \<open>finalize\<close> succeeds at most once.
\<close>

theorem finalized_is_terminal:
  assumes "reachable w"
    and "transact ok (finalize now cid (fst w)) = Returned r s1 evs"
    and "step\<^sup>*\<^sup>* (s1, snd w @ evs) w'"
  shows "transact ok' (finalize now' cid (fst w')) = Reverted FINALIZED
    \<and> commit w' (transact ok' (finalize now' cid (fst w'))) = w'
    \<and> transact ok' (attestCompletion sender now' cid dayIndex (fst w'))
        = Reverted (if sender = verifier (fst w') then FINALIZED else NOT_VERIFIER)
    \<and> commit w' (transact ok' (attestCompletion sender now' cid dayIndex (fst w'))) = w'
    \<and> finalizedCount cid (snd w') = 1"
proof -
  have inv: "vault_inv w" by (rule reachable_inv [OF assms(1)])
  have inv1: "vault_inv (s1, snd w @ evs)"
    using finalize_inv [of "fst w" "snd w", OF _ assms(2)] inv by simp
  note f = finalize_Returned [OF assms(2)]
  from f(4) have fin1: "finalized (challenges s1 cid)" and u1: "user (challenges s1 cid) \<noteq> 0"
    using f(2) by auto
  from steps_keeps [OF assms(3) inv1] u1
  have invb: "vault_inv w'" and k: "keeps (challenges s1 cid) (challenges (fst w') cid)"
    by simp_all
  from k fin1 have finb: "finalized (challenges (fst w') cid)"
    by (simp add: keeps_def)
  have a: "transact ok' (finalize now' cid (fst w')) = Reverted FINALIZED"
    using finb by (simp add: finalize_def transact_def)
  have b: "transact ok' (attestCompletion sender now' cid dayIndex (fst w'))
        = Reverted (if sender = verifier (fst w') then FINALIZED else NOT_VERIFIER)"
    using finb by (simp add: attestCompletion_def transact_def)
  have c: "finalizedCount cid (snd w') = 1"
    using invb finb by (simp add: vault_inv_def challenge_inv_def)
  from a b c show ?thesis
    by (simp add: reverted_commit)
qed

theorem finalized_is_terminal_witness:
  "transact True (finalize 700000 1 (fst run6)) = Reverted FINALIZED
   \<and> commit run6 (transact True (finalize 700000 1 (fst run6))) = run6
   \<and> transact True (attestCompletion 4 700000 1 3 (fst run6)) = Reverted FINALIZED
   \<and> commit run6 (transact True (attestCompletion 4 700000 1 3 (fst run6))) = run6
   \<and> finalizedCount 1 (snd run6) = 1"
proof -
  have "run6 = commit run5 (transact True (finalize 605800 1 (fst run5)))"
    by (rule run6_def)
  also have "\<dots> = (fst run6, snd run5 @ [Finalized 1 58])"
    by (simp add: run5_finalize commit_def)
  finally have "step\<^sup>*\<^sup>* (fst run6, snd run5 @ [Finalized 1 58]) run6"
    by simp
  from finalized_is_terminal [OF run_reachable(6) run5_finalize this, of True 700000 4 3]
  show ?thesis
    by (simp add: run6_facts commit_def)
qed

text \<open>
  Claim C4 as stated fails for a caller that is not the verifier: on the finalized
  challenge of the run, \<open>attestCompletion\<close> called by the user 5 reverts with
  \<open>NOT_VERIFIER\<close>, not with \<open>FINALIZED\<close>.
\<close>

theorem attest_after_finalize_counterexample:
  "reachable run6 \<and> finalized (challenges (fst run6) 1)
   \<and> transact True (attestCompletion 5 700000 1 3 (fst run6)) = Reverted NOT_VERIFIER
   \<and> transact True (attestCompletion 5 700000 1 3 (fst run6)) \<noteq> Reverted FINALIZED"
  by (simp add: run_reachable run6_facts run6_after_reverts)

subsection \<open>C5: a day is unlocked at most once\<close>

text \<open>
  Claim C5, amended. Once \<open>attestCompletion\<close> has succeeded for a day of a challenge,
  then after any further calls of the contract every \<open>attestCompletion\<close> of the same
  day on the same challenge reverts and changes neither the storage nor the log. The
  error is \<open>ALREADY_UNLOCKED\<close> when the caller is the verifier and the challenge is not
  finalized; the checks before it give \<open>NOT_VERIFIER\<close> for another caller and
  \<open>FINALIZED\<close> for a finalized challenge. The log holds exactly one \<open>DayAttested\<close>
  event of that day, so each day is unlocked at most once.
\<close>

theorem attested_day_stays_unlocked:
  assumes "reachable w"
    and "transact ok (attestCompletion sender now cid dayIndex (fst w)) = Returned r s1 evs"
    and "step\<^sup>*\<^sup>* (s1, snd w @ evs) w'"
  shows "transact ok' (attestCompletion sender' now' cid dayIndex (fst w'))
        = Reverted (if sender' \<noteq> verifier (fst w') then NOT_VERIFIER
                    else if finalized (challenges (fst w') cid) then FINALIZED
                    else ALREADY_UNLOCKED)
    \<and> commit w' (transact ok' (attestCompletion sender' now' cid dayIndex (fst w'))) = w'
    \<and> attestedCount cid dayIndex (snd w') = 1"
proof -
  have inv: "vault_inv w" by (rule reachable_inv [OF assms(1)])
  have inv1: "vault_inv (s1, snd w @ evs)"
    using attestCompletion_inv [of "fst w" "snd w", OF _ assms(2)] inv by simp
  note a = attestCompletion_Returned [OF assms(2)]
  have u1: "user (challenges s1 cid) \<noteq> 0" and d1: "dayUnlocked (challenges s1 cid) dayIndex"
    and n1: "dayIndex < durationDays (challenges s1 cid)"
    using a(3,4) unfolding a(8) by simp_all
  from steps_keeps [OF assms(3) inv1] u1
  have invb: "vault_inv w'" and k: "keeps (challenges s1 cid) (challenges (fst w') cid)"
    by simp_all
  from k u1 d1 n1 have u: "user (challenges (fst w') cid) \<noteq> 0"
    and d: "dayUnlocked (challenges (fst w') cid) dayIndex"
    and n: "dayIndex < durationDays (challenges (fst w') cid)"
    by (simp_all add: keeps_def)
  have x: "transact ok' (attestCompletion sender' now' cid dayIndex (fst w'))
        = Reverted (if sender' \<noteq> verifier (fst w') then NOT_VERIFIER
                    else if finalized (challenges (fst w') cid) then FINALIZED
                    else ALREADY_UNLOCKED)"
    using u d n by (simp add: attestCompletion_def transact_def)
  have c: "attestedCount cid dayIndex (snd w') = 1"
    using invb d by (simp add: vault_inv_def challenge_inv_def)
  from x c show ?thesis
    by (simp add: reverted_commit)
qed

theorem attested_day_stays_unlocked_witness:
  "transact True (attestCompletion 4 1000 1 0 (fst run2)) = Reverted ALREADY_UNLOCKED
   \<and> commit run2 (transact True (attestCompletion 4 1000 1 0 (fst run2))) = run2
   \<and> attestedCount 1 0 (snd run2) = 1"
proof -
  have "step\<^sup>*\<^sup>* (fst run2, snd run1 @ [DayAttested 1 0 14]) run2"
    using run2_eq by simp
  from attested_day_stays_unlocked [OF run_reachable(2) run1_attest this, of True 4 1000]
  show ?thesis
    by (simp add: run2_facts commit_def)
qed

text \<open>
  Claim C5 as stated fails once the challenge is finalized: in the run, day 0 was
  attested, the challenge was finalized later, and a second attestation of day 0 by the
  verifier reverts with \<open>FINALIZED\<close>, not with \<open>ALREADY_UNLOCKED\<close>.
\<close>

theorem attest_twice_after_finalize_counterexample:
  "reachable run1
   \<and> transact True (attestCompletion 4 1000 1 0 (fst run1)) = Returned () (fst run2) [DayAttested 1 0 14]
   \<and> step\<^sup>*\<^sup>* run2 run6
   \<and> transact True (attestCompletion 4 700000 1 0 (fst run6)) = Reverted FINALIZED
   \<and> transact True (attestCompletion 4 700000 1 0 (fst run6)) \<noteq> Reverted ALREADY_UNLOCKED"
  by (simp add: run_reachable run1_attest run2_steps_run6 run6_after_reverts)

subsection \<open>C6: the time gate of \<open>attestCompletion\<close>\<close>

text \<open>
  Claim C6, amended. In every reachable state, for an existing challenge that is not
  finalized, the verifier as caller and a day \<open>dayIndex < durationDays\<close> not yet unlocked:
  \<^item> when \<open>startTime + dayIndex * 86400\<close> fits in a \<open>uint256\<close> and \<open>now\<close> is less than it,
    the call reverts with \<open>DAY_NOT_STARTED\<close>;
  \<^item> when that sum does not fit, the checked arithmetic of the \<open>require\<close> reverts the call
    with the overflow panic;
  \<^item> when \<open>now\<close> is that sum or more, the call succeeds, unlocks the day and adds
    \<open>dailySlice\<close> to \<open>released\<close>.
  Nothing is assumed of the other days, so days may be attested in any order.
\<close>

theorem attestCompletion_time_gate:
  assumes "reachable w"
    and "user (challenges (fst w) cid) \<noteq> 0" and "\<not> finalized (challenges (fst w) cid)"
    and "sender = verifier (fst w)"
    and "dayIndex < durationDays (challenges (fst w) cid)"
    and "\<not> dayUnlocked (challenges (fst w) cid) dayIndex"
  shows
    "(unat (startTime (challenges (fst w) cid)) + unat dayIndex * 86400 < 2 ^ 256
        \<and> unat now < unat (startTime (challenges (fst w) cid)) + unat dayIndex * 86400 \<longrightarrow>
        transact ok (attestCompletion sender now cid dayIndex (fst w)) = Reverted DAY_NOT_STARTED)
     \<and> (2 ^ 256 \<le> unat (startTime (challenges (fst w) cid)) + unat dayIndex * 86400 \<longrightarrow>
        transact ok (attestCompletion sender now cid dayIndex (fst w)) = Reverted Panic_0x11)
     \<and> (unat (startTime (challenges (fst w) cid)) + unat dayIndex * 86400 \<le> unat now \<longrightarrow>
        transact ok (attestCompletion sender now cid dayIndex (fst w))
        = Returned ()
            ((fst w)\<lparr>challenges := (challenges (fst w))(cid := (challenges (fst w) cid)
               \<lparr>dayUnlocked := (dayUnlocked (challenges (fst w) cid))(dayIndex := True),
                released := released (challenges (fst w) cid)
                            + dailySlice (challenges (fst w) cid)\<rparr>)\<rparr>)
            [DayAttested cid dayIndex (dailySlice (challenges (fst w) cid))])"
proof -
  let ?c = "challenges (fst w) cid"
  let ?T = "unat (startTime ?c) + unat dayIndex * 86400"
  have inv: "vault_inv (fst w, snd w)" using reachable_inv [OF assms(1)] by simp
  have "unat (released ?c) + unat (dailySlice ?c) \<le> unat (principal ?c)"
    by (rule room_for_slice [OF vault_inv_challenge(1) [OF inv] assms(5,6)])
  also have "unat (principal ?c) < 2 ^ LENGTH(256)" by (rule unsigned_less)
  finally have room: "checked_add (released ?c) (dailySlice ?c) = Inr (released ?c + dailySlice ?c)"
    by (simp add: checked_add_def)
  have nb: "unat now < 2 ^ LENGTH(256)" by (rule unsigned_less)
  have u86400: "unat (86400 :: uint256) = 86400" by simp
  have gate: "checked_mul dayIndex one_days = Inr off \<Longrightarrow>
      checked_add (startTime ?c) off = Inr t \<Longrightarrow> unat t = ?T" for off t
    using checked_mul_unat [of dayIndex one_days off] checked_add_unat [of "startTime ?c" off t]
    by (simp add: one_days_def)
  have over: "2 ^ 256 \<le> ?T \<Longrightarrow>
      (case checked_mul dayIndex one_days of Inl e \<Rightarrow> e = Panic_0x11
       | Inr off \<Rightarrow> checked_add (startTime ?c) off = Inl Panic_0x11)"
    by (auto simp: checked_mul_def checked_add_def one_days_def unat_mult_lem [THEN iffD1]
        split: sum.splits)
  have fits: "?T < 2 ^ 256 \<Longrightarrow>
      \<exists>off t. checked_mul dayIndex one_days = Inr off \<and> checked_add (startTime ?c) off = Inr t
        \<and> unat t = ?T"
  proof -
    assume b: "?T < 2 ^ 256"
    then have m: "unat dayIndex * unat (86400 :: uint256) < 2 ^ LENGTH(256)" by simp
    then have um: "unat (dayIndex * 86400) = unat dayIndex * 86400"
      by (simp add: unat_mult_lem [THEN iffD1])
    have cm: "checked_mul dayIndex one_days = Inr (dayIndex * 86400)"
      using m by (simp add: checked_mul_def one_days_def)
    have ca: "checked_add (startTime ?c) (dayIndex * 86400) = Inr (startTime ?c + dayIndex * 86400)"
      using b um by (simp add: checked_add_def)
    from gate [OF cm ca] cm ca show ?thesis by blast
  qed
  have A: "transact ok (attestCompletion sender now cid dayIndex (fst w)) = Reverted DAY_NOT_STARTED"
    if "?T < 2 ^ 256" "unat now < ?T"
  proof -
    from fits [OF that(1)] obtain off t where
      "checked_mul dayIndex one_days = Inr off" "checked_add (startTime ?c) off = Inr t" "unat t = ?T"
      by blast
    with that(2) assms(2-6) show ?thesis
      by (simp add: attestCompletion_def transact_def Let_def word_le_nat_alt)
  qed
  have B: "transact ok (attestCompletion sender now cid dayIndex (fst w)) = Reverted Panic_0x11"
    if "2 ^ 256 \<le> ?T"
    using over [OF that] assms(2-6)
    by (auto simp: attestCompletion_def transact_def Let_def split: sum.splits)
  have C: "transact ok (attestCompletion sender now cid dayIndex (fst w))
        = Returned ()
            ((fst w)\<lparr>challenges := (challenges (fst w))(cid := ?c
               \<lparr>dayUnlocked := (dayUnlocked ?c)(dayIndex := True),
                released := released ?c + dailySlice ?c\<rparr>)\<rparr>)
            [DayAttested cid dayIndex (dailySlice ?c)]"
    if "?T \<le> unat now"
  proof -
    from that nb have "?T < 2 ^ 256" by simp
    from fits [OF this] obtain off t where
      "checked_mul dayIndex one_days = Inr off" "checked_add (startTime ?c) off = Inr t" "unat t = ?T"
      by blast
    with that assms(2-6) room show ?thesis
      by (simp add: attestCompletion_def transact_def Let_def word_le_nat_alt)
  qed
  from A B C show ?thesis by blast
qed

theorem attestCompletion_time_gate_witness:
  "transact True (attestCompletion 4 87399 1 1 (fst run1)) = Reverted DAY_NOT_STARTED
   \<and> (\<exists>s. transact True (attestCompletion 4 87400 1 1 (fst run1))
          = Returned () s [DayAttested 1 1 14]
        \<and> released (challenges s 1) = 14 \<and> \<not> dayUnlocked (challenges s 1) 0)"
proof -
  have h: "user (challenges (fst run1) 1) \<noteq> 0" "\<not> finalized (challenges (fst run1) 1)"
    "4 = verifier (fst run1)" "1 < durationDays (challenges (fst run1) 1)"
    "\<not> dayUnlocked (challenges (fst run1) 1) 1"
    by (simp_all add: run1_facts)
  from attestCompletion_time_gate [OF run_reachable(2) h, of 87399 True]
    attestCompletion_time_gate [OF run_reachable(2) h, of 87400 True]
  show ?thesis
    by (simp add: run1_facts)
qed

text \<open>
  Claim C6 as stated fails where the sum overflows: \<open>createChallenge\<close> accepts any start
  time from \<open>now\<close> on, and for the challenge that starts at \<open>2 ^ 256 - 1\<close> the
  attestation of day 1 reverts with the overflow panic, not with \<open>DAY_NOT_STARTED\<close>,
  although the block time is before the day's start.
\<close>

theorem attest_start_overflow_counterexample:
  "reachable run_max
   \<and> user (challenges (fst run_max) 1) \<noteq> 0 \<and> \<not> finalized (challenges (fst run_max) 1)
   \<and> verifier (fst run_max) = 4
   \<and> 1 < durationDays (challenges (fst run_max) 1)
   \<and> \<not> dayUnlocked (challenges (fst run_max) 1) 1
   \<and> unat (5000 :: uint256) < unat (startTime (challenges (fst run_max) 1)) + unat (1 :: uint256) * 86400
   \<and> transact True (attestCompletion 4 5000 1 1 (fst run_max)) = Reverted Panic_0x11
   \<and> transact True (attestCompletion 4 5000 1 1 (fst run_max)) \<noteq> Reverted DAY_NOT_STARTED"
  by (simp add: run_max_reachable run_max_facts op_defs MAX_UINT256_def)

subsection \<open>C1: conservation\<close>

text \<open>
  Claim C1. In every reachable state and for every challenge, the amount paid to the
  owner so far (the sum of the challenge's \<open>Claimed\<close> events) plus \<open>released\<close> plus
  \<open>penalized\<close> is at most \<open>principal\<close>, and it equals \<open>principal\<close> once the challenge is
  finalized. In the storage that a successful \<open>finalize\<close> leaves, \<open>penalized\<close> plus the
  sum of \<open>dailySlice\<close> over the unlocked days equals \<open>principal\<close>. All sums are sums of
  natural numbers.
\<close>

theorem conservation:
  assumes "reachable w"
  shows "claimedTotal cid (snd w) + unat (released (challenges (fst w) cid))
           + unat (penalized (challenges (fst w) cid))
         \<le> unat (principal (challenges (fst w) cid))
    \<and> (finalized (challenges (fst w) cid) \<longrightarrow>
         claimedTotal cid (snd w) + unat (released (challenges (fst w) cid))
           + unat (penalized (challenges (fst w) cid))
         = unat (principal (challenges (fst w) cid)))
    \<and> (\<forall>ok now r s' evs.
         transact ok (finalize now cid (fst w)) = Returned r s' evs \<longrightarrow>
         unat (penalized (challenges s' cid))
           + (\<Sum>i \<in> unlockedDays (challenges s' cid). unat (dailySlice (challenges s' cid)))
         = unat (principal (challenges s' cid)))"
proof -
  have inv: "vault_inv (fst w, snd w)" using reachable_inv [OF assms] by simp
  note c = conserved [OF vault_inv_challenge(1) [OF inv, of cid]]
  have "unat (penalized (challenges s' cid)) + unlockedTotal (challenges s' cid)
         = unat (principal (challenges s' cid))"
    if ret: "transact ok (finalize now cid (fst w)) = Returned r s' evs" for ok now r s' evs
  proof -
    have "vault_inv (s', snd w @ evs)"
      by (rule finalize_inv [OF inv ret])
    moreover have "finalized (challenges s' cid)"
      using finalize_Returned(4) [OF ret] by auto
    ultimately show ?thesis
      by (intro conserved(3) [OF vault_inv_challenge(1)])
  qed
  with c(1,2) show ?thesis
    by (simp add: unlockedTotal_def)
qed

theorem conservation_witness:
  "claimedTotal 1 (snd run6) = 28 \<and> unat (released (challenges (fst run6) 1)) = 14
   \<and> unat (penalized (challenges (fst run6) 1)) = 58
   \<and> unat (principal (challenges (fst run6) 1)) = 100
   \<and> claimedTotal 1 (snd run6) + unat (released (challenges (fst run6) 1))
        + unat (penalized (challenges (fst run6) 1))
      = unat (principal (challenges (fst run6) 1))
   \<and> unat (penalized (challenges (fst run6) 1))
        + (\<Sum>i \<in> unlockedDays (challenges (fst run6) 1). unat (dailySlice (challenges (fst run6) 1)))
      = unat (principal (challenges (fst run6) 1))"
proof -
  have f: "finalized (challenges (fst run6) 1)" by (simp add: run6_facts)
  from conservation [OF run_reachable(7), of 1] f
  have a: "claimedTotal 1 (snd run6) + unat (released (challenges (fst run6) 1))
        + unat (penalized (challenges (fst run6) 1))
      = unat (principal (challenges (fst run6) 1))"
    by blast
  from conservation [OF run_reachable(6), of 1] run5_finalize
  have b: "unat (penalized (challenges (fst run6) 1))
        + (\<Sum>i \<in> unlockedDays (challenges (fst run6) 1). unat (dailySlice (challenges (fst run6) 1)))
      = unat (principal (challenges (fst run6) 1))"
    by blast
  have v: "claimedTotal 1 (snd run6) = 28" "unat (released (challenges (fst run6) 1)) = 14"
    "unat (penalized (challenges (fst run6) 1)) = 58"
    "unat (principal (challenges (fst run6) 1)) = 100"
    by (simp_all add: run6_facts claimedTotal_def)
  from v a b show ?thesis by blast
qed

subsection \<open>C10: a challenge with a zero slice\<close>

text \<open>
  Claim C10, amended. In every reachable state, a challenge with
  \<open>principal < durationDays\<close> has \<open>dailySlice = 0\<close> and \<open>released = 0\<close>; every successful
  \<open>attestCompletion\<close> on it leaves \<open>released\<close> as it was and logs an unlocked amount of 0;
  \<open>claimUnlocked\<close> on it always reverts, with \<open>NOTHING_TO_CLAIM\<close> when the caller is the
  owner and with \<open>NOT_USER\<close> otherwise; and \<open>finalize\<close>, once the period is over,
  succeeds (when the token answers true) and pays the whole \<open>principal\<close> to the
  beneficiary, whatever days were attested.
\<close>

theorem zero_slice_challenge:
  assumes "reachable w"
    and "principal (challenges (fst w) cid) < durationDays (challenges (fst w) cid)"
  shows "dailySlice (challenges (fst w) cid) = 0 \<and> released (challenges (fst w) cid) = 0
    \<and> (\<forall>ok sender now dayIndex r s' evs.
         transact ok (attestCompletion sender now cid dayIndex (fst w)) = Returned r s' evs \<longrightarrow>
         released (challenges s' cid) = released (challenges (fst w) cid)
         \<and> evs = [DayAttested cid dayIndex 0])
    \<and> (\<forall>ok sender.
         transact ok (claimUnlocked sender cid (fst w))
         = Reverted (if sender = user (challenges (fst w) cid) then NOTHING_TO_CLAIM else NOT_USER))
    \<and> (\<forall>now. user (challenges (fst w) cid) \<noteq> 0 \<and> \<not> finalized (challenges (fst w) cid)
           \<and> unat (startTime (challenges (fst w) cid))
               + unat (durationDays (challenges (fst w) cid)) * 86400 \<le> unat now \<longrightarrow>
         (\<exists>s' k. finalize now cid (fst w)
               = ExternalCall (Transfer (beneficiary (challenges (fst w) cid))
                                 (principal (challenges (fst w) cid))) s' k
            \<and> transact True (finalize now cid (fst w))
               = Returned () s' [Finalized cid (principal (challenges (fst w) cid))]
            \<and> penalized (challenges s' cid) = principal (challenges (fst w) cid)
            \<and> finalized (challenges s' cid)))
    \<and> (\<forall>ok now r s' evs.
         transact ok (finalize now cid (fst w)) = Returned r s' evs \<longrightarrow>
         evs = [Finalized cid (principal (challenges (fst w) cid))]
         \<and> penalized (challenges s' cid) = principal (challenges (fst w) cid))"
proof -
  let ?c = "challenges (fst w) cid"
  have inv: "vault_inv (fst w, snd w)" using reachable_inv [OF assms(1)] by simp
  note ci = vault_inv_challenge(1) [OF inv, of cid]
  note z = zero_slice [OF ci assms(2)]
  from ci have sub: "unlockedDays ?c \<subseteq> {i. i < durationDays ?c}"
    and sl: "dailySlice ?c = principal ?c div durationDays ?c"
    and nz: "user ?c \<noteq> 0 \<longrightarrow> principal ?c \<noteq> 0"
    and pen: "\<not> finalized ?c \<longrightarrow> penalized ?c = 0"
    by (simp_all add: challenge_inv_def)
  have A: "released (challenges s' cid) = released ?c \<and> evs = [DayAttested cid dayIndex 0]"
    if "transact ok (attestCompletion sender now cid dayIndex (fst w)) = Returned r s' evs"
    for ok sender now dayIndex r s' evs
    using attestCompletion_Returned(8,9) [OF that] z(1) by simp
  have B: "transact ok (claimUnlocked sender cid (fst w))
         = Reverted (if sender = user ?c then NOTHING_TO_CLAIM else NOT_USER)" for ok sender
    using z(2) by (auto simp: claimUnlocked_def transact_def Let_def)
  have su: "sumUnlocked ?c = Inr 0"
  proof -
    from sumUnlocked_total [OF sub slice_bound [OF sl]] obtain t where
      "sumUnlocked ?c = Inr t" "unat t = unlockedTotal ?c" by blast
    with z(3) show ?thesis by (simp add: unat_eq_0)
  qed
  have C: "\<exists>s' k. finalize now cid (fst w)
               = ExternalCall (Transfer (beneficiary ?c) (principal ?c)) s' k
            \<and> transact True (finalize now cid (fst w))
               = Returned () s' [Finalized cid (principal ?c)]
            \<and> penalized (challenges s' cid) = principal ?c
            \<and> finalized (challenges s' cid)"
    if u: "user ?c \<noteq> 0" and nf: "\<not> finalized ?c"
      and t: "unat (startTime ?c) + unat (durationDays ?c) * 86400 \<le> unat now" for now
  proof -
    have nb: "unat now < 2 ^ LENGTH(256)" by (rule unsigned_less)
    with t have m: "unat (durationDays ?c) * unat (86400 :: uint256) < 2 ^ LENGTH(256)" by simp
    then have um: "unat (durationDays ?c * 86400) = unat (durationDays ?c) * 86400"
      by (simp add: unat_mult_lem [THEN iffD1])
    have cm: "checked_mul (durationDays ?c) one_days = Inr (durationDays ?c * 86400)"
      using m by (simp add: checked_mul_def one_days_def)
    have b: "unat (startTime ?c) + unat (durationDays ?c * 86400) < 2 ^ LENGTH(256)"
      using t nb um by simp
    then have ca: "checked_add (startTime ?c) (durationDays ?c * 86400)
        = Inr (startTime ?c + durationDays ?c * 86400)"
      by (simp add: checked_add_def)
    have le: "startTime ?c + durationDays ?c * 86400 \<le> now"
      using t um b by (simp add: word_le_nat_alt unat_add_lem [THEN iffD1])
    have p0: "penalized ?c = 0" using pen nf by simp
    have pos: "0 < principal ?c" using nz u by (simp add: word_greater_zero_iff)
    have "unat (principal ?c) < 2 ^ LENGTH(256)" by (rule unsigned_less)
    then have cp: "checked_add 0 (principal ?c) = Inr (principal ?c)"
      by (simp add: checked_add_def)
    have cs: "checked_sub (principal ?c) 0 = Inr (principal ?c)"
      by (simp add: checked_sub_def)
    show ?thesis
      using u nf cm ca le su p0 pos cp cs
      by (simp add: finalize_def transact_def Let_def)
  qed
  have D: "evs = [Finalized cid (principal ?c)] \<and> penalized (challenges s' cid) = principal ?c"
    if ret: "transact ok (finalize now cid (fst w)) = Returned r s' evs" for ok now r s' evs
  proof -
    note f = finalize_Returned [OF ret]
    from f(1) pen have "penalized ?c = 0" by simp
    with f(4) su show ?thesis by auto
  qed
  from z(1,2) A B C D show ?thesis by blast
qed

theorem zero_slice_challenge_witness:
  "dailySlice (challenges (fst run_z2) 1) = 0 \<and> released (challenges (fst run_z2) 1) = 0
   \<and> dayUnlocked (challenges (fst run_z2) 1) 0
   \<and> transact True (claimUnlocked 5 1 (fst run_z2)) = Reverted NOTHING_TO_CLAIM
   \<and> (\<exists>s' k. finalize 605800 1 (fst run_z2) = ExternalCall (Transfer 6 3) s' k
         \<and> transact True (finalize 605800 1 (fst run_z2)) = Returned () s' [Finalized 1 3]
         \<and> penalized (challenges s' 1) = 3)"
proof -
  have lt: "principal (challenges (fst run_z2) 1) < durationDays (challenges (fst run_z2) 1)"
    by (simp add: run_z2_facts)
  note z = zero_slice_challenge [OF run_z_reachable(2) lt]
  from z have a: "dailySlice (challenges (fst run_z2) 1) = 0"
    "released (challenges (fst run_z2) 1) = 0"
    by blast+
  from z have "transact True (claimUnlocked 5 1 (fst run_z2))
      = Reverted (if 5 = user (challenges (fst run_z2) 1) then NOTHING_TO_CLAIM else NOT_USER)"
    by blast
  then have b: "transact True (claimUnlocked 5 1 (fst run_z2)) = Reverted NOTHING_TO_CLAIM"
    by (simp add: run_z2_facts)
  have "user (challenges (fst run_z2) 1) \<noteq> 0 \<and> \<not> finalized (challenges (fst run_z2) 1)
      \<and> unat (startTime (challenges (fst run_z2) 1))
          + unat (durationDays (challenges (fst run_z2) 1)) * 86400 \<le> unat (605800 :: uint256)"
    by (simp add: run_z2_facts)
  with z have "\<exists>s' k. finalize 605800 1 (fst run_z2)
        = ExternalCall (Transfer (beneficiary (challenges (fst run_z2) 1))
                          (principal (challenges (fst run_z2) 1))) s' k
      \<and> transact True (finalize 605800 1 (fst run_z2))
        = Returned () s' [Finalized 1 (principal (challenges (fst run_z2) 1))]
      \<and> penalized (challenges s' 1) = principal (challenges (fst run_z2) 1)
      \<and> finalized (challenges s' 1)"
    by blast
  then have c: "\<exists>s' k. finalize 605800 1 (fst run_z2) = ExternalCall (Transfer 6 3) s' k
         \<and> transact True (finalize 605800 1 (fst run_z2)) = Returned () s' [Finalized 1 3]
         \<and> penalized (challenges s' 1) = 3"
    by (auto simp: run_z2_facts)
  have d: "dayUnlocked (challenges (fst run_z2) 1) 0"
    by (simp add: run_z2_facts)
  from a b c d show ?thesis by blast
qed

text \<open>
  Claim C10 as stated fails for a caller that is not the owner: \<open>claimUnlocked\<close> checks the
  caller first, so on the zero-slice challenge the call by the address 9 reverts with
  \<open>NOT_USER\<close>, not with \<open>NOTHING_TO_CLAIM\<close>.
\<close>

theorem zero_slice_claim_by_stranger_counterexample:
  "reachable run_z1
   \<and> principal (challenges (fst run_z1) 1) < durationDays (challenges (fst run_z1) 1)
   \<and> dailySlice (challenges (fst run_z1) 1) = 0
   \<and> transact True (claimUnlocked 9 1 (fst run_z1)) = Reverted NOT_USER
   \<and> transact True (claimUnlocked 9 1 (fst run_z1)) \<noteq> Reverted NOTHING_TO_CLAIM"
  by (simp add: run_z_reachable run_z1_facts claimUnlocked_def transact_def)

end
